theory Spec2Isabelle
  imports Main "HOL-Library.Word"
begin

unbundle bit_operations_syntax

section \<open>Python values shared by the three native modules\<close>

text \<open>
  A Python \<open>str\<close> is a sequence of Unicode code points, so it is modelled as a list of
  natural numbers (one per code point, lone surrogates included, as in Python). A
  \<open>bytes\<close> object and a C \<open>char*\<close> / \<open>uint8_t*\<close> buffer are lists of 8-bit words.
  The functions are those of a Cython 3 build (the package needs Python 3.13): an
  exception raised inside a \<open>cpdef\<close> function with a C return type propagates to
  the caller, so every raise is a value \<open>Inl e\<close> of the result.
\<close>

type_synonym py_str = "nat list"
type_synonym byte = "8 word"

datatype py_error =
    ValueError string
  | UnicodeEncodeError
  | UnicodeDecodeError
  | TypeError

definition lit :: "string \<Rightarrow> py_str" where
  "lit s = map of_char s"

definition blit :: "string \<Rightarrow> byte list" where
  "blit s = map of_char s"

text \<open>\<open>text.encode('ascii')\<close>: raises on the first code point above 127.\<close>

definition encode_ascii :: "py_str \<Rightarrow> py_error + byte list" where
  "encode_ascii text =
     (if list_all (\<lambda>c. c < 128) text then Inr (map of_nat text) else Inl UnicodeEncodeError)"

text \<open>\<open>data.decode('ascii')\<close>: raises on the first byte above 127.\<close>

definition decode_ascii :: "byte list \<Rightarrow> py_error + py_str" where
  "decode_ascii data =
     (if list_all (\<lambda>b. b < 128) data then Inr (map unat data) else Inl UnicodeDecodeError)"

section \<open>strings/\_native.pyx: character classes and the hex codec\<close>

text \<open>
  The C \<open>char\<close> arguments are read as unsigned bytes. Every range tested below lies in
  0..127, so a platform with signed \<open>char\<close> takes the same branches: a byte above 127
  fails every upper bound when unsigned and every lower bound when signed.
\<close>

definition HEX_CHARS :: "byte list" where
  "HEX_CHARS = blit ''0123456789abcdef''"

definition is_hex_char :: "byte \<Rightarrow> bool" where
  "is_hex_char c = ((c \<ge> 48 \<and> c \<le> 57) \<or> (c \<ge> 97 \<and> c \<le> 102) \<or> (c \<ge> 65 \<and> c \<le> 70))"

definition hex_char_to_nibble :: "byte \<Rightarrow> byte" where
  "hex_char_to_nibble c =
     (if c \<ge> 48 \<and> c \<le> 57 then c - 48
      else if c \<ge> 97 \<and> c \<le> 102 then c - 97 + 10
      else if c \<ge> 65 \<and> c \<le> 70 then c - 65 + 10
      else 0)"

text \<open>
  \<open>_bytes_to_hex(data, out, length)\<close>: the loop writes \<open>out[2*i]\<close> and \<open>out[2*i+1]\<close> for
  \<open>i = 0 .. length - 1\<close>; the function returns the filled buffer.
\<close>

fun bytes_to_hex :: "byte list \<Rightarrow> byte list" where
  "bytes_to_hex [] = []"
| "bytes_to_hex (byte_val # data) =
     HEX_CHARS ! unat (drop_bit 4 byte_val) # HEX_CHARS ! unat (byte_val AND 0x0F)
       # bytes_to_hex data"

text \<open>
  \<open>_hex_to_bytes(hex_str, out, hex_len)\<close>: the loop writes \<open>out[i]\<close> for
  \<open>i = 0 .. hex_len // 2 - 1\<close> from the characters \<open>2*i\<close> and \<open>2*i + 1\<close>. The two
  nibbles are below 16, so the C \<open>int\<close> expression fits the \<open>uint8_t\<close> it is stored in.
\<close>

definition hex_to_bytes :: "byte list \<Rightarrow> nat \<Rightarrow> byte list" where
  "hex_to_bytes hex_str hex_len =
     map (\<lambda>i. push_bit 4 (hex_char_to_nibble (hex_str ! (i * 2)))
                OR hex_char_to_nibble (hex_str ! (i * 2 + 1)))
         [0 ..< hex_len div 2]"

section \<open>Israeli ID validation\<close>

text \<open>
  \<open>str.isdigit\<close> and \<open>int\<close> read the Unicode character database. For ASCII they are
  fixed; for the other code points the database is a parameter \<open>uni\<close>: a code point is
  no digit, a decimal digit with its value (accepted by \<open>int\<close>), or a digit that is not
  decimal (superscripts and the like: \<open>isdigit\<close> holds, \<open>int\<close> raises).
\<close>

datatype udigit = NotDigit | Decimal nat | OtherDigit

definition py_isdigit :: "(nat \<Rightarrow> udigit) \<Rightarrow> nat \<Rightarrow> bool" where
  "py_isdigit uni c = (if c < 128 then 48 \<le> c \<and> c \<le> 57 else uni c \<noteq> NotDigit)"

definition py_int_char :: "(nat \<Rightarrow> udigit) \<Rightarrow> nat \<Rightarrow> py_error + int" where
  "py_int_char uni c =
     (if c < 128 then (if 48 \<le> c \<and> c \<le> 57 then Inr (int c - 48)
                       else Inl (ValueError ''invalid literal for int()''))
      else (case uni c of
              Decimal d \<Rightarrow> Inr (int d)
            | _ \<Rightarrow> Inl (ValueError ''invalid literal for int()'')))"

text \<open>\<open>text.zfill(width)\<close>: zeros go after a leading sign.\<close>

definition zfill :: "nat \<Rightarrow> py_str \<Rightarrow> py_str" where
  "zfill width text =
     (if length text \<ge> width then text
      else (case text of
              c # rest \<Rightarrow>
                if c = 43 \<or> c = 45 then c # replicate (width - length text) 48 @ rest
                else replicate (width - length text) 48 @ text
            | [] \<Rightarrow> replicate width 48))"

text \<open>The first loop: \<open>return False\<close> at the first character that is no digit.\<close>

fun all_digits :: "(nat \<Rightarrow> udigit) \<Rightarrow> py_str \<Rightarrow> bool" where
  "all_digits uni [] = True"
| "all_digits uni (char # text) = (if \<not> py_isdigit uni char then False else all_digits uni text)"

text \<open>
  The checksum loop over \<open>i = 0 .. 8\<close>. \<open>padded_text\<close> has at least nine characters
  after \<open>zfill(9)\<close>, so \<open>padded_text[i]\<close> is in range. The total stays below 100, far
  from the range of a C \<open>int\<close>.
\<close>

function checksum_loop :: "(nat \<Rightarrow> udigit) \<Rightarrow> py_str \<Rightarrow> nat \<Rightarrow> int \<Rightarrow> py_error + int" where
  "checksum_loop uni padded_text i total' =
     (if i < 9 then
        (case py_int_char uni (padded_text ! i) of
           Inl e \<Rightarrow> Inl e
         | Inr digit \<Rightarrow>
             (let step = digit * (int (i mod 2) + 1)
              in checksum_loop uni padded_text (i + 1)
                   (total' + (if step > 9 then step - 9 else step))))
      else Inr total')"
  by pat_completeness auto
termination
  by (relation "measure (\<lambda>(uni, padded_text, i, t). 9 - i)") auto

declare checksum_loop.simps [simp del]

definition is_valid_israeli_id_cython :: "(nat \<Rightarrow> udigit) \<Rightarrow> py_str \<Rightarrow> py_error + bool" where
  "is_valid_israeli_id_cython uni text =
     (if length text > 9 then Inr False
      else if \<not> all_digits uni text then Inr False
      else (case checksum_loop uni (zfill 9 text) 0 0 of
              Inl e \<Rightarrow> Inl e
            | Inr total' \<Rightarrow> Inr (total' mod 10 = 0)))"

section \<open>Hex validation, encoding and decoding of text\<close>

fun all_hex_chars :: "byte list \<Rightarrow> bool" where
  "all_hex_chars [] = True"
| "all_hex_chars (c # text_ptr) = (if \<not> is_hex_char c then False else all_hex_chars text_ptr)"

definition is_hex_cython :: "py_str \<Rightarrow> py_error + bool" where
  "is_hex_cython text =
     (if text = [] then Inr False
      else (case encode_ascii text of
              Inl e \<Rightarrow> Inl e
            | Inr text_bytes \<Rightarrow> Inr (all_hex_chars text_bytes)))"

text \<open>
  \<open>text.encode('utf-8')\<close> and \<open>data.decode('utf-8')\<close>, both strict as in Python: a
  surrogate code point cannot be encoded; overlong forms, surrogates, values above
  U+10FFFF and truncated sequences cannot be decoded.
\<close>

definition utf8_encode_cp :: "nat \<Rightarrow> py_error + byte list" where
  "utf8_encode_cp c =
     (if c < 0x80 then Inr [of_nat c]
      else if c < 0x800 then Inr [of_nat (0xC0 + c div 64), of_nat (0x80 + c mod 64)]
      else if c < 0x10000 then
        (if 0xD800 \<le> c \<and> c < 0xE000 then Inl UnicodeEncodeError
         else Inr [of_nat (0xE0 + c div 4096), of_nat (0x80 + c div 64 mod 64),
                   of_nat (0x80 + c mod 64)])
      else if c < 0x110000 then
        Inr [of_nat (0xF0 + c div 262144), of_nat (0x80 + c div 4096 mod 64),
             of_nat (0x80 + c div 64 mod 64), of_nat (0x80 + c mod 64)]
      else Inl UnicodeEncodeError)"

fun encode_utf8 :: "py_str \<Rightarrow> py_error + byte list" where
  "encode_utf8 [] = Inr []"
| "encode_utf8 (c # text) =
     (case utf8_encode_cp c of
        Inl e \<Rightarrow> Inl e
      | Inr bs \<Rightarrow> (case encode_utf8 text of Inl e \<Rightarrow> Inl e | Inr rest \<Rightarrow> Inr (bs @ rest)))"

definition is_cont :: "nat \<Rightarrow> bool" where
  "is_cont b = (0x80 \<le> b \<and> b < 0xC0)"

definition dec_cons :: "nat \<Rightarrow> py_error + py_str \<Rightarrow> py_error + py_str" where
  "dec_cons c r = (case r of Inl e \<Rightarrow> Inl e | Inr text \<Rightarrow> Inr (c # text))"

fun utf8_decode :: "nat list \<Rightarrow> py_error + py_str" where
  "utf8_decode [] = Inr []"
| "utf8_decode (b0 # rest) =
     (if b0 < 0x80 then dec_cons b0 (utf8_decode rest)
      else if 0xC2 \<le> b0 \<and> b0 < 0xE0 then
        (case rest of
           b1 # r \<Rightarrow>
             if is_cont b1 then dec_cons ((b0 - 0xC0) * 64 + (b1 - 0x80)) (utf8_decode r)
             else Inl UnicodeDecodeError
         | _ \<Rightarrow> Inl UnicodeDecodeError)
      else if 0xE0 \<le> b0 \<and> b0 < 0xF0 then
        (case rest of
           b1 # b2 # r \<Rightarrow>
             (let c = (b0 - 0xE0) * 4096 + (b1 - 0x80) * 64 + (b2 - 0x80)
              in if is_cont b1 \<and> is_cont b2 \<and> 0x800 \<le> c \<and> \<not> (0xD800 \<le> c \<and> c < 0xE000)
                 then dec_cons c (utf8_decode r)
                 else Inl UnicodeDecodeError)
         | _ \<Rightarrow> Inl UnicodeDecodeError)
      else if 0xF0 \<le> b0 \<and> b0 < 0xF5 then
        (case rest of
           b1 # b2 # b3 # r \<Rightarrow>
             (let c = (b0 - 0xF0) * 262144 + (b1 - 0x80) * 4096 + (b2 - 0x80) * 64 + (b3 - 0x80)
              in if is_cont b1 \<and> is_cont b2 \<and> is_cont b3 \<and> 0x10000 \<le> c \<and> c < 0x110000
                 then dec_cons c (utf8_decode r)
                 else Inl UnicodeDecodeError)
         | _ \<Rightarrow> Inl UnicodeDecodeError)
      else Inl UnicodeDecodeError)"

definition decode_utf8 :: "byte list \<Rightarrow> py_error + py_str" where
  "decode_utf8 data = utf8_decode (map unat data)"

text \<open>
  \<open>to_hex_cython\<close> and \<open>from_hex_cython\<close>. \<open>_bytes_to_hex\<close> is called with the length of
  the buffer it reads, \<open>_hex_to_bytes\<close> with the length of the encoded text. The
  \<open>MemoryError\<close> of a failed allocation is outside the model.
\<close>

definition to_hex_cython :: "py_str \<Rightarrow> py_error + py_str" where
  "to_hex_cython text =
     (case encode_utf8 text of
        Inl e \<Rightarrow> Inl e
      | Inr text_bytes \<Rightarrow> decode_ascii (bytes_to_hex text_bytes))"

definition from_hex_cython :: "py_str \<Rightarrow> py_error + py_str" where
  "from_hex_cython text =
     (case encode_ascii text of
        Inl e \<Rightarrow> Inl e
      | Inr hex_bytes \<Rightarrow>
          (let hex_len = length hex_bytes
           in if hex_len mod 2 \<noteq> 0 then Inl (ValueError ''Hex string must have even length'')
              else decode_utf8 (hex_to_bytes hex_bytes hex_len)))"

section \<open>crypto/\_native.pyx: stable UUIDs and UUIDv7\<close>

text \<open>
  \<open>str(UUID(bytes=b))\<close> of the standard library: the constructor raises unless \<open>b\<close>
  has 16 bytes; the text is the 128-bit value as 32 lowercase hex digits, cut
  8-4-4-4-12 with dashes.
\<close>

definition py_hex_digit :: "nat \<Rightarrow> nat" where
  "py_hex_digit n = (if n < 10 then 48 + n else 87 + n)"

definition py_hex32 :: "byte list \<Rightarrow> py_str" where
  "py_hex32 b = concat (map (\<lambda>x. [py_hex_digit (unat x div 16), py_hex_digit (unat x mod 16)]) b)"

definition uuid_str :: "byte list \<Rightarrow> py_error + py_str" where
  "uuid_str b =
     (if length b \<noteq> 16 then Inl (ValueError ''bytes is not a 16-char string'')
      else (let h = py_hex32 b
            in Inr (take 8 h @ [45] @ take 4 (drop 8 h) @ [45] @ take 4 (drop 12 h) @ [45]
                    @ take 4 (drop 16 h) @ [45] @ drop 20 h)))"

text \<open>\<open>str.upper\<close> on ASCII text (the text of a UUID has no other character).\<close>

definition upper_ascii :: "py_str \<Rightarrow> py_str" where
  "upper_ascii text = map (\<lambda>c. if 97 \<le> c \<and> c \<le> 122 then c - 32 else c) text"

text \<open>\<open>sep.join(parts)\<close>.\<close>

fun join :: "py_str \<Rightarrow> py_str list \<Rightarrow> py_str" where
  "join sep [] = []"
| "join sep [part] = part"
| "join sep (part # parts) = part @ sep @ join sep parts"

text \<open>
  \<open>to_stable_uuid_cython\<close>. The hash \<open>hashlib.md5(data).digest()\<close> is a parameter
  \<open>md5\<close>; MD5 digests have 16 bytes, which the fixed length 32 passed to
  \<open>_hex_to_bytes\<close> relies on.
\<close>

definition to_stable_uuid_cython :: "(byte list \<Rightarrow> byte list) \<Rightarrow> py_str list \<Rightarrow> py_error + py_str" where
  "to_stable_uuid_cython md5 parts =
     (if parts = [] then Inr []
      else (case encode_utf8 (join [124] parts) of
              Inl e \<Rightarrow> Inl e
            | Inr joined_bytes \<Rightarrow>
                (let hash_bytes = md5 joined_bytes;
                     hex_obj = bytes_to_hex hash_bytes;
                     uuid_bytes_obj = hex_to_bytes hex_obj 32
                 in (case uuid_str uuid_bytes_obj of
                       Inl e \<Rightarrow> Inl e
                     | Inr u \<Rightarrow> Inr (upper_ascii u)))))"

text \<open>\<open>_write_u48_be(out, x)\<close>: the six low bytes of \<open>x\<close>, most significant first.\<close>

definition write_u48_be :: "64 word \<Rightarrow> byte list" where
  "write_u48_be x =
     [ucast (drop_bit 40 x), ucast (drop_bit 32 x), ucast (drop_bit 24 x),
      ucast (drop_bit 16 x), ucast (drop_bit 8 x), ucast x]"

text \<open>
  \<open>uuidv7_cython\<close>. The clock reading \<open>ts_ms\<close> (already cast to \<open>uint64_t\<close>) and the
  ten bytes \<open>rnd\<close> of \<open>os.urandom(10)\<close> are the inputs. The sixteen bytes \<open>p[0..15]\<close>
  are written in the order of the source.
\<close>

definition uuidv7_bytes :: "64 word \<Rightarrow> byte list \<Rightarrow> byte list" where
  "uuidv7_bytes ts_ms r =
     write_u48_be ts_ms
     @ [(r ! 0 AND 0x0F) OR 0x70,
        (r ! 1 AND 0x3F) OR 0x80,
        r ! 2, r ! 3, r ! 4, r ! 5, r ! 6, r ! 7, r ! 8, r ! 9]"

definition uuidv7_cython :: "64 word \<Rightarrow> byte list \<Rightarrow> py_error + py_str" where
  "uuidv7_cython ts_ms rnd = uuid_str (uuidv7_bytes ts_ms rnd)"

text \<open>\<open>_parse_hex_u48(hex_str)\<close>: twelve characters, four bits each, into a \<open>uint64_t\<close>.\<close>

definition parse_hex_u48 :: "byte list \<Rightarrow> 64 word" where
  "parse_hex_u48 hex_str =
     fold (\<lambda>i result. push_bit 4 result OR ucast (hex_char_to_nibble (hex_str ! i)))
          [0 ..< 12] 0"

text \<open>
  \<open>uuidv7_to_datetime_cython\<close>. The conversion
  \<open>datetime.fromtimestamp(<double>timestamp_ms / 1000.0, tz=UTC)\<close> is a parameter
  \<open>fromtimestamp\<close> of the millisecond count; it may raise (years after 9999).
  \<open>None\<close> is the Python \<open>None\<close> returned for an empty text.
\<close>

definition uuidv7_to_datetime_cython ::
    "(64 word \<Rightarrow> py_error + 'dt) \<Rightarrow> py_str \<Rightarrow> py_error + 'dt option" where
  "uuidv7_to_datetime_cython fromtimestamp uuid =
     (if uuid = [] then Inr None
      else (let clean_hex = filter (\<lambda>c. c \<noteq> 45) uuid
            in if length clean_hex \<noteq> 32 then Inl (ValueError ''Invalid UUID string length'')
               else (case encode_ascii clean_hex of
                       Inl e \<Rightarrow> Inl e
                     | Inr hex_bytes \<Rightarrow>
                         (case fromtimestamp (parse_hex_u48 hex_bytes) of
                            Inl e \<Rightarrow> Inl e
                          | Inr dt \<Rightarrow> Inr (Some dt)))))"

section \<open>The properties in the words of the specification\<close>

text \<open>
  A code point is a hex digit when it is one of \<open>0-9\<close>, \<open>a-f\<close>, \<open>A-F\<close>; its value is
  the digit it writes (0 for any other code point, which is what \<open>_hex_char_to_nibble\<close>
  returns then). A text is well-formed hex when its length is even and every character
  is a hex digit. \<open>hex_pairs\<close> is the byte sequence that a text denotes, two characters
  per byte, high nibble first.
\<close>

definition hex_digit_cp :: "nat \<Rightarrow> bool" where
  "hex_digit_cp c = ((48 \<le> c \<and> c \<le> 57) \<or> (97 \<le> c \<and> c \<le> 102) \<or> (65 \<le> c \<and> c \<le> 70))"

definition hex_val :: "nat \<Rightarrow> nat" where
  "hex_val c =
     (if 48 \<le> c \<and> c \<le> 57 then c - 48
      else if 97 \<le> c \<and> c \<le> 102 then c - 87
      else if 65 \<le> c \<and> c \<le> 70 then c - 55
      else 0)"

definition well_formed_hex :: "py_str \<Rightarrow> bool" where
  "well_formed_hex s = (even (length s) \<and> list_all hex_digit_cp s)"

fun hex_pairs :: "py_str \<Rightarrow> nat list" where
  "hex_pairs (hi # lo # s) = (16 * hex_val hi + hex_val lo) # hex_pairs s"
| "hex_pairs _ = []"

definition is_ascii_str :: "py_str \<Rightarrow> bool" where
  "is_ascii_str s = list_all (\<lambda>c. c < 128) s"

text \<open>
  The value of a text read as a big-endian unsigned hexadecimal number, and the
  uppercase dashed rendering of a digest: two uppercase hex digits per byte, cut
  8-4-4-4-12.
\<close>

definition hex_value :: "py_str \<Rightarrow> nat" where
  "hex_value s = foldl (\<lambda>acc c. 16 * acc + hex_val c) 0 s"

definition upper_hex_digit :: "nat \<Rightarrow> nat" where
  "upper_hex_digit n = (if n < 10 then 48 + n else 55 + n)"

definition upper_hex :: "byte list \<Rightarrow> py_str" where
  "upper_hex d = concat (map (\<lambda>x. [upper_hex_digit (unat x div 16), upper_hex_digit (unat x mod 16)]) d)"

definition dashed :: "py_str \<Rightarrow> py_str" where
  "dashed h = take 8 h @ [45] @ take 4 (drop 8 h) @ [45] @ take 4 (drop 12 h) @ [45]
                @ take 4 (drop 16 h) @ [45] @ drop 20 h"

definition upper_dashed_hex :: "byte list \<Rightarrow> py_str" where
  "upper_dashed_hex d = dashed (upper_hex d)"

section \<open>objects/\_native.pyx: nested values\<close>

text \<open>
  The values the object functions work on. \<open>VStr\<close> is a \<open>str\<close>; \<open>VBytes\<close> stands for the
  byte-like kinds (\<open>bytes\<close>, \<open>bytearray\<close>, \<open>memoryview\<close>); \<open>VDict\<close> is a \<open>dict\<close>, its items
  in insertion order, with keys that are values themselves; \<open>VList\<close>, \<open>VTuple\<close> and
  \<open>VSet\<close> are the three sequence kinds, a set with its elements in iteration order;
  \<open>VObj\<close> is any other object (\<open>None\<close>, a number, a boolean, a generator, ...).
  Values are trees: the model describes the contents of the objects, not their
  identity, so an object reachable along two paths is two equal subtrees.

  What Python decides by the type of an object is a parameter for \<open>VObj\<close>: its truth
  value, whether \<open>iter\<close> accepts it, and the text \<open>str\<close> gives for a key that is no
  \<open>str\<close>.
\<close>

datatype 'o pyval =
    VStr py_str
  | VBytes "byte list"
  | VObj 'o
  | VDict "('o pyval \<times> 'o pyval) list"
  | VList "'o pyval list"
  | VTuple "'o pyval list"
  | VSet "'o pyval list"

record 'o py_env =
  truthy :: "'o \<Rightarrow> bool"
  iterable :: "'o \<Rightarrow> bool"
  str_of :: "'o pyval \<Rightarrow> py_str"

text \<open>\<open>bool(v)\<close> and \<open>a or b\<close>.\<close>

fun py_bool :: "'o py_env \<Rightarrow> 'o pyval \<Rightarrow> bool" where
  "py_bool E (VStr s) = (s \<noteq> [])"
| "py_bool E (VBytes b) = (b \<noteq> [])"
| "py_bool E (VObj ob) = truthy E ob"
| "py_bool E (VDict d) = (d \<noteq> [])"
| "py_bool E (VList xs) = (xs \<noteq> [])"
| "py_bool E (VTuple xs) = (xs \<noteq> [])"
| "py_bool E (VSet xs) = (xs \<noteq> [])"

definition py_or :: "'o py_env \<Rightarrow> 'o pyval \<Rightarrow> 'o pyval \<Rightarrow> 'o pyval" where
  "py_or E a b = (if py_bool E a then a else b)"

text \<open>
  \<open>d[k] = v\<close>: the value of an existing key is replaced where it stands, a new key
  goes to the end. \<open>k in d\<close> and \<open>d[k]\<close> are \<open>map_of d k\<close>.
\<close>

fun dict_set :: "('k \<times> 'v) list \<Rightarrow> 'k \<Rightarrow> 'v \<Rightarrow> ('k \<times> 'v) list" where
  "dict_set [] k v = [(k, v)]"
| "dict_set ((k', v') # d) k v = (if k' = k then (k, v) # d else (k', v') # dict_set d k v)"

text \<open>\<open>s.startswith("_")\<close> and \<open>s.lstrip("_")\<close>.\<close>

definition startswith_underscore :: "py_str \<Rightarrow> bool" where
  "startswith_underscore s = (case s of [] \<Rightarrow> False | c # _ \<Rightarrow> c = 95)"

definition lstrip_underscore :: "py_str \<Rightarrow> py_str" where
  "lstrip_underscore s = dropWhile (\<lambda>c. c = 95) s"

text \<open>\<open>is_iterable_except_str_like_cython\<close>.\<close>

fun is_iterable_except_str_like_cython :: "'o py_env \<Rightarrow> 'o pyval \<Rightarrow> bool" where
  "is_iterable_except_str_like_cython E (VStr s) = False"
| "is_iterable_except_str_like_cython E (VBytes b) = False"
| "is_iterable_except_str_like_cython E (VDict d) = True"
| "is_iterable_except_str_like_cython E (VList xs) = True"
| "is_iterable_except_str_like_cython E (VTuple xs) = True"
| "is_iterable_except_str_like_cython E (VSet xs) = True"
| "is_iterable_except_str_like_cython E (VObj ob) = iterable E ob"

text \<open>
  The merge loop of \<open>change_keys_case\<close>, over the snapshot \<open>list(d.keys())\<close>. It writes
  into \<open>d\<close>, the dictionary the caller passed. A key of the snapshot is still a key
  of \<open>d\<close> when it is read (the loop removes nothing), so \<open>d[k]\<close> cannot raise.
\<close>

fun merge_loop :: "'o py_env \<Rightarrow> 'o pyval list \<Rightarrow> ('o pyval \<times> 'o pyval) list
    \<Rightarrow> ('o pyval \<times> 'o pyval) list" where
  "merge_loop E [] d = d"
| "merge_loop E (k # ks) d =
     (case k of
        VStr s \<Rightarrow>
          if startswith_underscore s then
            (let new_k = VStr (lstrip_underscore s)
             in case map_of d new_k of
                  None \<Rightarrow> merge_loop E ks d
                | Some cur \<Rightarrow>
                    (case map_of d k of
                       None \<Rightarrow> merge_loop E ks d
                     | Some pv \<Rightarrow> merge_loop E ks (dict_set d new_k (py_or E cur pv))))
          else merge_loop E ks d
      | _ \<Rightarrow> merge_loop E ks d)"

text \<open>
  \<open>change_keys_case(input_obj, method, deep)\<close>. The result is a pair: the contents of
  \<open>input_obj\<close> when the call returns, and the value returned. For a dictionary the
  first is the merged dictionary \<open>d\<close> (the same object as \<open>input_obj\<close>), with the
  nested values as the recursive calls left them; the second is \<open>out\<close>, filled in the
  order of \<open>d.items()\<close>. \<open>set(tmp)\<close> keeps one of equal elements; the elements of a
  set are hashable, so no list or dictionary is among them and \<open>set(tmp)\<close> does not
  raise.
\<close>

definition method_key :: "'o py_env \<Rightarrow> ('o pyval \<Rightarrow> 'o pyval) \<Rightarrow> 'o pyval \<Rightarrow> 'o pyval" where
  "method_key E method key = method (case key of VStr s \<Rightarrow> key | _ \<Rightarrow> VStr (str_of E key))"

definition build_out :: "('o pyval \<times> 'o pyval) list \<Rightarrow> ('o pyval \<times> 'o pyval) list" where
  "build_out items = foldl (\<lambda>out (new_key, r). dict_set out new_key r) [] items"

function change_keys_case ::
    "'o py_env \<Rightarrow> ('o pyval \<Rightarrow> 'o pyval) \<Rightarrow> bool \<Rightarrow> 'o pyval \<Rightarrow> 'o pyval \<times> 'o pyval" where
  "change_keys_case E method deep (VStr s) = (VStr s, method (VStr s))"
| "change_keys_case E method deep (VBytes b) = (VBytes b, method (VBytes b))"
| "change_keys_case E method deep (VDict input_obj) =
     (let d = merge_loop E (map fst input_obj) input_obj;
          rs = map (\<lambda>(key, value).
                  if deep \<and> is_iterable_except_str_like_cython E value
                  then (let (value', r) = change_keys_case E method deep value
                        in ((key, value'), (method_key E method key, r)))
                  else ((key, value), (method_key E method key, value))) d
      in (VDict (map fst rs), VDict (build_out (map snd rs))))"
| "change_keys_case E method deep (VList input_obj) =
     (let rs = map (\<lambda>item. if deep \<and> is_iterable_except_str_like_cython E item
                             then change_keys_case E method deep item
                             else (item, item)) input_obj
      in (VList (map fst rs), VList (map snd rs)))"
| "change_keys_case E method deep (VTuple input_obj) =
     (let rs = map (\<lambda>item. if deep \<and> is_iterable_except_str_like_cython E item
                             then change_keys_case E method deep item
                             else (item, item)) input_obj
      in (VTuple (map fst rs), VTuple (map snd rs)))"
| "change_keys_case E method deep (VSet input_obj) =
     (let rs = map (\<lambda>item. if deep \<and> is_iterable_except_str_like_cython E item
                             then change_keys_case E method deep item
                             else (item, item)) input_obj
      in (VSet (map fst rs), VSet (remdups (map snd rs))))"
| "change_keys_case E method deep (VObj ob) = (VObj ob, VObj ob)"
  by pat_completeness auto

text \<open>Every recursive call is on a value of the dictionary or an item of the sequence.\<close>

lemma dict_set_value:
  "(k', v') \<in> set (dict_set d k v) \<Longrightarrow> v' = v \<or> (\<exists>k''. (k'', v') \<in> set d)"
proof (induction d)
  case Nil
  then show ?case by simp
next
  case (Cons kv d)
  obtain a w where kv: "kv = (a, w)" by (cases kv)
  show ?case
  proof (cases "a = k")
    case True
    with Cons.prems show ?thesis unfolding kv by auto
  next
    case False
    with Cons.prems have "(k', v') = (a, w) \<or> (k', v') \<in> set (dict_set d k v)"
      unfolding kv by simp
    then show ?thesis
    proof
      assume "(k', v') = (a, w)"
      then show ?thesis unfolding kv by auto
    next
      assume "(k', v') \<in> set (dict_set d k v)"
      from Cons.IH[OF this] show ?thesis by auto
    qed
  qed
qed

lemma merge_loop_value:
  "(k', v') \<in> set (merge_loop E ks d) \<Longrightarrow> \<exists>k''. (k'', v') \<in> set d"
proof (induction ks arbitrary: d)
  case Nil
  then show ?case by auto
next
  case (Cons k ks)
  show ?case
  proof (cases k)
    case (VStr s)
    show ?thesis
    proof (cases "startswith_underscore s")
      case False
      with VStr Cons show ?thesis by simp
    next
      case True
      show ?thesis
      proof (cases "map_of d (VStr (lstrip_underscore s))")
        case None
        with VStr True Cons show ?thesis by simp
      next
        case (Some cur)
        show ?thesis
        proof (cases "map_of d k")
          case None
          with VStr True Some Cons show ?thesis by simp
        next
          case pv: (Some pv)
          let ?d = "dict_set d (VStr (lstrip_underscore s)) (py_or E cur pv)"
          from Cons.prems have "(k', v') \<in> set (merge_loop E ks ?d)"
            using VStr True Some pv by simp
          from Cons.IH[OF this] obtain k2 where "(k2, v') \<in> set ?d" by blast
          from dict_set_value[OF this] have "v' = py_or E cur pv \<or> (\<exists>k''. (k'', v') \<in> set d)" .
          moreover have "\<exists>k''. (k'', py_or E cur pv) \<in> set d"
            using map_of_SomeD[OF Some] map_of_SomeD[OF pv] by (auto simp: py_or_def)
          ultimately show ?thesis by blast
        qed
      qed
    qed
  qed (use Cons in simp_all)
qed

lemma size_dict_value: "(k, v) \<in> set d \<Longrightarrow> size v < size (VDict d)"
  by (induction d) auto

lemma size_list_item: "x \<in> set xs \<Longrightarrow> size x < Suc (size_list size xs)"
  by (induction xs) auto

termination change_keys_case
proof (relation "measure (\<lambda>(E, method, deep, v). size v)", goal_cases)
  case 1
  show ?case by simp
next
  case (2 E "method" deep input_obj d kv key v)
  then have "(key, v) \<in> set (merge_loop E (map fst input_obj) input_obj)"
    by simp
  from merge_loop_value[OF this] obtain k where "(k, v) \<in> set input_obj" by blast
  then show ?case using size_dict_value by simp
next
  case 3 then show ?case by (simp add: size_list_item)
next
  case 4 then show ?case by (simp add: size_list_item)
next
  case 5 then show ?case by (simp add: size_list_item)
qed

text \<open>
  \<open>sorted(input_dict.items())\<close>. The items are pairs; the keys of a dictionary differ,
  so two pairs are ordered by their keys alone. \<open><\<close> on two \<open>str\<close> keys is the
  order of the code points; on other keys it is a parameter \<open>lt\<close>, \<open>None\<close> where Python
  raises \<open>TypeError\<close> (a \<open>str\<close> against a number, say). The sort is an insertion sort:
  on keys that \<open><\<close> orders totally every sort gives the same list, and a pair of keys
  that cannot be compared makes \<open>sorted\<close> raise.
\<close>

fun str_lt :: "py_str \<Rightarrow> py_str \<Rightarrow> bool" where
  "str_lt [] [] = False"
| "str_lt [] (y # ys) = True"
| "str_lt (x # xs) [] = False"
| "str_lt (x # xs) (y # ys) = (x < y \<or> (x = y \<and> str_lt xs ys))"

definition py_lt :: "('o pyval \<Rightarrow> 'o pyval \<Rightarrow> bool option) \<Rightarrow> 'o pyval \<Rightarrow> 'o pyval \<Rightarrow> bool option" where
  "py_lt lt a b = (case (a, b) of (VStr x, VStr y) \<Rightarrow> Some (str_lt x y) | _ \<Rightarrow> lt a b)"

fun insert_item :: "('o pyval \<Rightarrow> 'o pyval \<Rightarrow> bool option) \<Rightarrow> 'o pyval \<times> 'o pyval
    \<Rightarrow> ('o pyval \<times> 'o pyval) list \<Rightarrow> py_error + ('o pyval \<times> 'o pyval) list" where
  "insert_item lt x [] = Inr [x]"
| "insert_item lt x (y # ys) =
     (case py_lt lt (fst x) (fst y) of
        None \<Rightarrow> Inl TypeError
      | Some True \<Rightarrow> Inr (x # y # ys)
      | Some False \<Rightarrow>
          (case insert_item lt x ys of Inl e \<Rightarrow> Inl e | Inr r \<Rightarrow> Inr (y # r)))"

fun py_sorted :: "('o pyval \<Rightarrow> 'o pyval \<Rightarrow> bool option) \<Rightarrow> ('o pyval \<times> 'o pyval) list
    \<Rightarrow> py_error + ('o pyval \<times> 'o pyval) list" where
  "py_sorted lt [] = Inr []"
| "py_sorted lt (x # xs) =
     (case py_sorted lt xs of Inl e \<Rightarrow> Inl e | Inr s \<Rightarrow> insert_item lt x s)"

text \<open>A loop body that may raise, run over a list: the first error ends the loop.\<close>

fun map_result :: "('a \<Rightarrow> py_error + 'b) \<Rightarrow> 'a list \<Rightarrow> py_error + 'b list" where
  "map_result f [] = Inr []"
| "map_result f (x # xs) =
     (case f x of
        Inl e \<Rightarrow> Inl e
      | Inr y \<Rightarrow> (case map_result f xs of Inl e \<Rightarrow> Inl e | Inr ys \<Rightarrow> Inr (y # ys)))"

lemma map_result_cong [fundef_cong]:
  assumes "xs = ys" and "\<And>x. x \<in> set ys \<Longrightarrow> f x = g x"
  shows "map_result f xs = map_result g ys"
proof -
  have "map_result f ys = map_result g ys" using assms(2)
  proof (induction ys)
    case Nil
    show ?case by simp
  next
    case (Cons y ys)
    have a: "f y = g y" by (rule Cons.prems) simp
    have b: "map_result f ys = map_result g ys"
      by (rule Cons.IH) (simp add: Cons.prems)
    show ?case unfolding map_result.simps a b by (rule refl)
  qed
  with assms(1) show ?thesis by simp
qed

lemma insert_item_set: "insert_item lt x ys = Inr r \<Longrightarrow> set r = insert x (set ys)"
proof (induction ys arbitrary: r)
  case Nil
  then show ?case by auto
next
  case (Cons y ys)
  show ?case
  proof (cases "py_lt lt (fst x) (fst y)")
    case None
    with Cons.prems show ?thesis by simp
  next
    case (Some b)
    show ?thesis
    proof (cases b)
      case True
      with Some Cons.prems have "r = x # y # ys" by simp
      then show ?thesis by auto
    next
      case False
      with Some Cons.prems obtain r' where r': "insert_item lt x ys = Inr r'" "r = y # r'"
        by (cases "insert_item lt x ys") auto
      from Cons.IH[OF r'(1)] r'(2) show ?thesis by auto
    qed
  qed
qed

lemma py_sorted_set: "py_sorted lt xs = Inr s \<Longrightarrow> set s = set xs"
proof (induction xs arbitrary: s)
  case Nil
  then show ?case by simp
next
  case (Cons x xs)
  then obtain s' where s': "py_sorted lt xs = Inr s'" "insert_item lt x s' = Inr s"
    by (cases "py_sorted lt xs") auto
  from Cons.IH[OF s'(1)] insert_item_set[OF s'(2)] show ?case by simp
qed

text \<open>
  \<open>recursive_sort_keys_cython(input_dict)\<close>: \<open>result\<close> is filled in the order of the
  sorted items. The value of a key is sorted when it is a dictionary; when it is a
  list or a tuple, \<open>new_list\<close> is built from its items, the dictionaries among them
  sorted, and \<open>new_list\<close>, a list, is stored; any other value is stored as it is.
\<close>

function recursive_sort_keys_cython ::
    "('o pyval \<Rightarrow> 'o pyval \<Rightarrow> bool option) \<Rightarrow> ('o pyval \<times> 'o pyval) list
     \<Rightarrow> py_error + ('o pyval \<times> 'o pyval) list" where
  "recursive_sort_keys_cython lt input_dict =
     (case py_sorted lt input_dict of
        Inl e \<Rightarrow> Inl e
      | Inr sorted_items \<Rightarrow>
          (case map_result
                  (\<lambda>(key, value).
                     case value of
                       VDict d \<Rightarrow>
                         (case recursive_sort_keys_cython lt d of
                            Inl e \<Rightarrow> Inl e
                          | Inr r \<Rightarrow> Inr (key, VDict r))
                     | VList items \<Rightarrow>
                         (case map_result
                                 (\<lambda>item. case item of
                                    VDict d \<Rightarrow>
                                      (case recursive_sort_keys_cython lt d of
                                         Inl e \<Rightarrow> Inl e
                                       | Inr r \<Rightarrow> Inr (VDict r))
                                  | _ \<Rightarrow> Inr item) items of
                            Inl e \<Rightarrow> Inl e
                          | Inr new_list \<Rightarrow> Inr (key, VList new_list))
                     | VTuple items \<Rightarrow>
                         (case map_result
                                 (\<lambda>item. case item of
                                    VDict d \<Rightarrow>
                                      (case recursive_sort_keys_cython lt d of
                                         Inl e \<Rightarrow> Inl e
                                       | Inr r \<Rightarrow> Inr (VDict r))
                                  | _ \<Rightarrow> Inr item) items of
                            Inl e \<Rightarrow> Inl e
                          | Inr new_list \<Rightarrow> Inr (key, VList new_list))
                     | _ \<Rightarrow> Inr (key, value)) sorted_items of
             Inl e \<Rightarrow> Inl e
           | Inr assigned \<Rightarrow> Inr (build_out assigned)))"
  by pat_completeness auto

termination
proof (relation "measure (\<lambda>(lt, d). size (VDict d))", goal_cases)
  case 1
  show ?case by simp
next
  case (2 lt input_dict sorted_items kv key v d)
  then have "(key, VDict d) \<in> set input_dict" using py_sorted_set[of lt input_dict sorted_items] by simp
  from size_dict_value[OF this] show ?case by simp
next
  case (3 lt input_dict sorted_items kv key v items item d)
  then have "(key, VList items) \<in> set input_dict" using py_sorted_set[of lt input_dict sorted_items] by simp
  from size_dict_value[OF this] have "size (VList items) < size (VDict input_dict)" .
  moreover have "size (VDict d) < size (VList items)" using 3 size_list_item[of "VDict d" items] by simp
  ultimately show ?case by simp
next
  case (4 lt input_dict sorted_items kv key v items item d)
  then have "(key, VTuple items) \<in> set input_dict" using py_sorted_set[of lt input_dict sorted_items] by simp
  from size_dict_value[OF this] have "size (VTuple items) < size (VDict input_dict)" .
  moreover have "size (VDict d) < size (VTuple items)" using 4 size_list_item[of "VDict d" items] by simp
  ultimately show ?case by simp
qed

declare recursive_sort_keys_cython.simps [simp del]

text \<open>The kind of a value. A string or a byte string is string-like.\<close>

datatype kind = KStr | KBytes | KObj | KDict | KList | KTuple | KSet

fun kind_of :: "'o pyval \<Rightarrow> kind" where
  "kind_of (VStr s) = KStr"
| "kind_of (VBytes b) = KBytes"
| "kind_of (VObj ob) = KObj"
| "kind_of (VDict d) = KDict"
| "kind_of (VList xs) = KList"
| "kind_of (VTuple xs) = KTuple"
| "kind_of (VSet xs) = KSet"

definition string_like :: "'o pyval \<Rightarrow> bool" where
  "string_like v = (kind_of v = KStr \<or> kind_of v = KBytes)"

text \<open>
  What \<open>recursive_sort_keys_cython\<close> does to the kind of a value of the mapping: it
  stores a list for a tuple.
\<close>

definition kind_after_sort :: "kind \<Rightarrow> kind" where
  "kind_after_sort k = (if k = KTuple then KList else k)"

text \<open>
  A key asks for a merge in \<open>d\<close> when it is a \<open>str\<close> that begins with \<open>_\<close> and the key
  without its leading underscores is in \<open>d\<close> too. A value is merge-free when no
  mapping that \<open>change_keys_case\<close> visits in it has such a key.
\<close>

definition asks_merge :: "('o pyval \<times> 'o pyval) list \<Rightarrow> 'o pyval \<Rightarrow> bool" where
  "asks_merge d k =
     (case k of
        VStr s \<Rightarrow> startswith_underscore s \<and> map_of d (VStr (lstrip_underscore s)) \<noteq> None
      | _ \<Rightarrow> False)"

function merge_free :: "bool \<Rightarrow> 'o pyval \<Rightarrow> bool" where
  "merge_free deep (VDict d) =
     (list_all (\<lambda>k. \<not> asks_merge d k) (map fst d)
      \<and> (deep \<longrightarrow> list_all (\<lambda>v. merge_free deep v) (map snd d)))"
| "merge_free deep (VList xs) = (deep \<longrightarrow> list_all (\<lambda>v. merge_free deep v) xs)"
| "merge_free deep (VTuple xs) = (deep \<longrightarrow> list_all (\<lambda>v. merge_free deep v) xs)"
| "merge_free deep (VSet xs) = (deep \<longrightarrow> list_all (\<lambda>v. merge_free deep v) xs)"
| "merge_free deep (VStr s) = True"
| "merge_free deep (VBytes b) = True"
| "merge_free deep (VObj ob) = True"
  by pat_completeness auto
termination
proof (relation "measure (\<lambda>(deep, v). size v)", goal_cases)
  case 1
  show ?case by simp
next
  case (2 deep d v)
  then obtain k where "(k, v) \<in> set d" by auto
  from size_dict_value[OF this] show ?case by simp
next
  case 3 then show ?case by (simp add: size_list_item)
next
  case 4 then show ?case by (simp add: size_list_item)
next
  case 5 then show ?case by (simp add: size_list_item)
qed

text \<open>
  The merge, in the words of the specification: for every key that begins with \<open>_\<close>,
  strip its leading underscores to form a candidate key; if the candidate key is in
  the mapping, the candidate's value becomes the first truthy of its value and the
  prefixed value. Key by key: \<open>prefixed_for c k\<close> says that \<open>k\<close> begins with \<open>_\<close> and strips
  to \<open>c\<close>; \<open>prefixed_values d c\<close> are the values of those keys of \<open>d\<close>, in the order of
  \<open>d\<close>; \<open>first_truthy E x xs\<close> is the first truthy value of \<open>x # xs\<close>, the last one when
  none is truthy; \<open>merged E d\<close> is \<open>d\<close> with every value replaced by the first truthy of
  itself and the values of its prefixed keys.
\<close>

definition prefixed_for :: "'o pyval \<Rightarrow> 'o pyval \<Rightarrow> bool" where
  "prefixed_for c k =
     (case k of VStr s \<Rightarrow> startswith_underscore s \<and> c = VStr (lstrip_underscore s) | _ \<Rightarrow> False)"

definition prefixed_values :: "('o pyval \<times> 'o pyval) list \<Rightarrow> 'o pyval \<Rightarrow> 'o pyval list" where
  "prefixed_values d c = map snd (filter (\<lambda>kv. prefixed_for c (fst kv)) d)"

fun first_truthy :: "'o py_env \<Rightarrow> 'o pyval \<Rightarrow> 'o pyval list \<Rightarrow> 'o pyval" where
  "first_truthy E x [] = x"
| "first_truthy E x (y # ys) = (if py_bool E x then x else first_truthy E y ys)"

definition merged :: "'o py_env \<Rightarrow> ('o pyval \<times> 'o pyval) list \<Rightarrow> ('o pyval \<times> 'o pyval) list" where
  "merged E d = map (\<lambda>(c, cur). (c, first_truthy E cur (prefixed_values d c))) d"

text \<open>
  The items written to the output mapping, before the values are transformed: the
  merged items under their rewritten keys. A later item replaces an earlier one
  with the same key, so the value under an output key \<open>nk\<close> is
  \<open>map_of (rev (rewritten E f d)) nk\<close>, that of the last key rewritten to \<open>nk\<close>.
\<close>

definition rewritten :: "'o py_env \<Rightarrow> ('o pyval \<Rightarrow> 'o pyval) \<Rightarrow> ('o pyval \<times> 'o pyval) list
    \<Rightarrow> ('o pyval \<times> 'o pyval) list" where
  "rewritten E f d = map (\<lambda>(k, w). (method_key E f k, w)) (merged E d)"

text \<open>A merged value, and a value written to the output, is a value of the mapping.\<close>

lemma first_truthy_mem: "first_truthy E x xs \<in> set (x # xs)"
  by (induction xs arbitrary: x) auto

lemma merged_value: "(k, m) \<in> set (merged E d) \<Longrightarrow> \<exists>k'. (k', m) \<in> set d"
proof -
  assume "(k, m) \<in> set (merged E d)"
  then obtain cur where c: "(k, cur) \<in> set d" and m: "m = first_truthy E cur (prefixed_values d k)"
    unfolding merged_def by auto
  from first_truthy_mem[of E cur "prefixed_values d k"] m
  have "m = cur \<or> m \<in> set (prefixed_values d k)" by auto
  then show ?thesis
  proof
    assume "m = cur" with c show ?thesis by blast
  next
    assume "m \<in> set (prefixed_values d k)"
    then obtain kv where "kv \<in> set d" "m = snd kv" unfolding prefixed_values_def by auto
    then have "(fst kv, m) \<in> set d" by simp
    then show ?thesis by blast
  qed
qed

lemma rewritten_value: "map_of (rev (rewritten E f d)) nk = Some x \<Longrightarrow> \<exists>k'. (k', x) \<in> set d"
proof -
  assume "map_of (rev (rewritten E f d)) nk = Some x"
  from map_of_SomeD[OF this] obtain k where "(k, x) \<in> set (merged E d)"
    unfolding rewritten_def by auto
  then show ?thesis by (rule merged_value)
qed

text \<open>
  The keys of every mapping in a value differ, as the keys of a Python \<open>dict\<close> do: the
  association lists that stand for a \<open>dict\<close> are the ones with distinct keys.
\<close>

function distinct_keys :: "'o pyval \<Rightarrow> bool" where
  "distinct_keys (VDict d) = (distinct (map fst d) \<and> list_all (\<lambda>v. distinct_keys v) (map snd d))"
| "distinct_keys (VList xs) = list_all (\<lambda>v. distinct_keys v) xs"
| "distinct_keys (VTuple xs) = list_all (\<lambda>v. distinct_keys v) xs"
| "distinct_keys (VSet xs) = list_all (\<lambda>v. distinct_keys v) xs"
| "distinct_keys (VStr s) = True"
| "distinct_keys (VBytes b) = True"
| "distinct_keys (VObj ob) = True"
  by pat_completeness auto
termination
proof (relation "measure size", goal_cases)
  case 1
  show ?case by simp
next
  case (2 d v)
  then obtain k where "(k, v) \<in> set d" by auto
  from size_dict_value[OF this] show ?case by simp
next
  case 3 then show ?case by (simp add: size_list_item)
next
  case 4 then show ?case by (simp add: size_list_item)
next
  case 5 then show ?case by (simp add: size_list_item)
qed

text \<open>
  What the caller's value holds when \<open>change_keys_case\<close> returns, said without the
  loop: every mapping the call visits is merged, and with \<open>deep\<close> the values and items
  below are treated the same way. Keys, and the order of keys and items, stay.
\<close>

function after_call :: "'o py_env \<Rightarrow> bool \<Rightarrow> 'o pyval \<Rightarrow> 'o pyval" where
  "after_call E deep (VDict d) =
     VDict (map (\<lambda>(k, m). (k, if deep then after_call E deep m else m)) (merged E d))"
| "after_call E deep (VList xs) = VList (map (\<lambda>x. if deep then after_call E deep x else x) xs)"
| "after_call E deep (VTuple xs) = VTuple (map (\<lambda>x. if deep then after_call E deep x else x) xs)"
| "after_call E deep (VSet xs) = VSet (map (\<lambda>x. if deep then after_call E deep x else x) xs)"
| "after_call E deep (VStr s) = VStr s"
| "after_call E deep (VBytes b) = VBytes b"
| "after_call E deep (VObj ob) = VObj ob"
  by pat_completeness auto
termination
proof (relation "measure (\<lambda>(E, deep, v). size v)", goal_cases)
  case 1
  show ?case by simp
next
  case (2 E deep d kv k m)
  then have "(k, m) \<in> set (merged E d)" by simp
  from merged_value[OF this] obtain k' where "(k', m) \<in> set d" by blast
  from size_dict_value[OF this] show ?case by simp
next
  case 3 then show ?case by (simp add: size_list_item)
next
  case 4 then show ?case by (simp add: size_list_item)
next
  case 5 then show ?case by (simp add: size_list_item)
qed

text \<open>
  The merge keeps every value: in every mapping the call visits, the first truthy of
  a key's value and the values of its prefixed keys is the key's own value.
\<close>

function merge_keeps :: "'o py_env \<Rightarrow> bool \<Rightarrow> 'o pyval \<Rightarrow> bool" where
  "merge_keeps E deep (VDict d) =
     list_all (\<lambda>(c, cur). first_truthy E cur (prefixed_values d c) = cur
                           \<and> (deep \<longrightarrow> merge_keeps E deep cur)) d"
| "merge_keeps E deep (VList xs) = (deep \<longrightarrow> list_all (\<lambda>x. merge_keeps E deep x) xs)"
| "merge_keeps E deep (VTuple xs) = (deep \<longrightarrow> list_all (\<lambda>x. merge_keeps E deep x) xs)"
| "merge_keeps E deep (VSet xs) = (deep \<longrightarrow> list_all (\<lambda>x. merge_keeps E deep x) xs)"
| "merge_keeps E deep (VStr s) = True"
| "merge_keeps E deep (VBytes b) = True"
| "merge_keeps E deep (VObj ob) = True"
  by pat_completeness auto
termination
proof (relation "measure (\<lambda>(E, deep, v). size v)", goal_cases)
  case 1
  show ?case by simp
next
  case (2 E deep d kv c cur)
  then have "(c, cur) \<in> set d" by simp
  from size_dict_value[OF this] show ?case by simp
next
  case 3 then show ?case by (simp add: size_list_item)
next
  case 4 then show ?case by (simp add: size_list_item)
next
  case 5 then show ?case by (simp add: size_list_item)
qed

text \<open>
  \<open>rebuilt E f deep v r\<close>: the result \<open>r\<close> is \<open>v\<close> rebuilt with the same containers. A list
  is rebuilt as a list and a tuple as a tuple, item by item. A set is rebuilt as a
  set: every element of the input has its rebuilt element in the result, and every
  element of the result is a rebuilt element of the input. A mapping is rebuilt as
  a mapping: its keys differ, they are the rewritten keys of the input, and the
  value under an output key is the rebuilt value of the last key rewritten to it
  (the value that key has after the merge). A nested value is rebuilt when \<open>deep\<close> is
  set and is the input's value itself otherwise; a value that is no container is
  unchanged.
\<close>

function rebuilt :: "'o py_env \<Rightarrow> ('o pyval \<Rightarrow> 'o pyval) \<Rightarrow> bool \<Rightarrow> 'o pyval \<Rightarrow> 'o pyval \<Rightarrow> bool" where
  "rebuilt E f deep (VDict inp) r =
     (case r of
        VDict out \<Rightarrow>
          distinct (map fst out)
          \<and> set (map fst out) = set (map fst (rewritten E f inp))
          \<and> list_all (\<lambda>(nk, y). case map_of (rev (rewritten E f inp)) nk of
                                    None \<Rightarrow> False
                                  | Some x \<Rightarrow> if deep then rebuilt E f deep x y else y = x) out
      | _ \<Rightarrow> False)"
| "rebuilt E f deep (VList inp) r =
     (case r of
        VList out \<Rightarrow> list_all2 (\<lambda>x y. if deep then rebuilt E f deep x y else y = x) inp out
      | _ \<Rightarrow> False)"
| "rebuilt E f deep (VTuple inp) r =
     (case r of
        VTuple out \<Rightarrow> list_all2 (\<lambda>x y. if deep then rebuilt E f deep x y else y = x) inp out
      | _ \<Rightarrow> False)"
| "rebuilt E f deep (VSet inp) r =
     (case r of
        VSet out \<Rightarrow>
          list_all (\<lambda>x. list_ex (\<lambda>y. if deep then rebuilt E f deep x y else y = x) out) inp
          \<and> list_all (\<lambda>y. list_ex (\<lambda>x. if deep then rebuilt E f deep x y else y = x) inp) out
      | _ \<Rightarrow> False)"
| "rebuilt E f deep (VStr s) r = (r = VStr s)"
| "rebuilt E f deep (VBytes b) r = (r = VBytes b)"
| "rebuilt E f deep (VObj ob) r = (r = VObj ob)"
  by pat_completeness auto
termination
proof (relation "measure (\<lambda>(E, f, deep, v, r). size v)", goal_cases)
  case 1
  show ?case by simp
next
  case (2 E f deep inp r out kv nk y x)
  from rewritten_value[OF 2(4)] obtain k' where "(k', x) \<in> set inp" by blast
  from size_dict_value[OF this] show ?case by simp
next
  case 3 then show ?case by (simp add: size_list_item)
next
  case 4 then show ?case by (simp add: size_list_item)
next
  case 5 then show ?case by (simp add: size_list_item)
next
  case 6 then show ?case by (simp add: size_list_item)
qed

text \<open>
  \<open>sort_rebuilt in_seq v v'\<close>: how the value \<open>v'\<close> that \<open>recursive_sort_keys_cython\<close>
  stores stands to the input's value \<open>v\<close>. A mapping is stored as a mapping with the
  same keys, every value so related to the input's value under the same key. A
  value of a mapping (\<open>in_seq\<close> false) that is a list or a tuple is stored as a list,
  its items in order, the mappings among them sorted and every other item itself
  (\<open>in_seq\<close> true). Any other value is stored as it is.
\<close>

function sort_rebuilt :: "bool \<Rightarrow> 'o pyval \<Rightarrow> 'o pyval \<Rightarrow> bool" where
  "sort_rebuilt in_seq (VDict d) v' =
     (case v' of
        VDict r \<Rightarrow>
          distinct (map fst r)
          \<and> set (map fst r) = set (map fst d)
          \<and> list_all (\<lambda>(k, v). case map_of r k of
                                   None \<Rightarrow> False
                                 | Some w \<Rightarrow> sort_rebuilt False v w) d
      | _ \<Rightarrow> False)"
| "sort_rebuilt in_seq (VList xs) v' =
     (if in_seq then v' = VList xs
      else (case v' of VList ys \<Rightarrow> list_all2 (\<lambda>x y. sort_rebuilt True x y) xs ys | _ \<Rightarrow> False))"
| "sort_rebuilt in_seq (VTuple xs) v' =
     (if in_seq then v' = VTuple xs
      else (case v' of VList ys \<Rightarrow> list_all2 (\<lambda>x y. sort_rebuilt True x y) xs ys | _ \<Rightarrow> False))"
| "sort_rebuilt in_seq (VSet xs) v' = (v' = VSet xs)"
| "sort_rebuilt in_seq (VStr s) v' = (v' = VStr s)"
| "sort_rebuilt in_seq (VBytes b) v' = (v' = VBytes b)"
| "sort_rebuilt in_seq (VObj ob) v' = (v' = VObj ob)"
  by pat_completeness auto
termination
proof (relation "measure (\<lambda>(in_seq, v, r). size v)", goal_cases)
  case 1
  show ?case by simp
next
  case (2 in_seq d v' r kv k v w)
  then have "(k, v) \<in> set d" by simp
  from size_dict_value[OF this] show ?case by simp
next
  case 3 then show ?case by (simp add: size_list_item)
next
  case 4 then show ?case by (simp add: size_list_item)
qed

section \<open>Properties\<close>

subsection \<open>Nibbles and the hex tables\<close>

lemma unat_hi_nibble: "unat (drop_bit 4 (b::byte)) < 16"
  using unsigned_less[of b, where 'a=nat] by (simp add: drop_bit_eq_div unat_div less_mult_imp_div_less)

lemma and_15_take_bit: "(b::byte) AND 15 = take_bit 4 b"
  by (simp add: take_bit_eq_mask mask_eq_exp_minus_1)

lemma unat_lo_nibble: "unat ((b::byte) AND 15) < 16"
  by (simp add: and_15_take_bit take_bit_eq_mod unat_mod)

lemma nibbles_rejoin: "push_bit 4 (drop_bit 4 (b::byte)) OR (b AND 15) = b"
  unfolding and_15_take_bit by (rule bit_word_eqI) (auto simp: bit_simps)

lemma HEX_CHARS_table:
  "list_all (\<lambda>n. hex_char_to_nibble (HEX_CHARS ! n) = of_nat n \<and> is_hex_char (HEX_CHARS ! n)
                  \<and> HEX_CHARS ! n < 128) [0 ..< 16]"
  by (simp add: upt_conv_Cons HEX_CHARS_def blit_def hex_char_to_nibble_def is_hex_char_def)

lemma nibble_of_HEX_CHARS: "n < 16 \<Longrightarrow> hex_char_to_nibble (HEX_CHARS ! n) = of_nat n"
  using HEX_CHARS_table by (simp add: list_all_iff del: upt_Suc)

lemma HEX_CHARS_hex: "n < 16 \<Longrightarrow> is_hex_char (HEX_CHARS ! n)"
  using HEX_CHARS_table by (simp add: list_all_iff del: upt_Suc)

lemma HEX_CHARS_ascii: "n < 16 \<Longrightarrow> HEX_CHARS ! n < 128"
  using HEX_CHARS_table by (simp add: list_all_iff del: upt_Suc)

lemma hex_to_bytes_step:
  "hex_to_bytes (hi # lo # hex_str) (Suc (Suc n)) =
     (push_bit 4 (hex_char_to_nibble hi) OR hex_char_to_nibble lo) # hex_to_bytes hex_str n"
  by (simp add: hex_to_bytes_def upt_conv_Cons map_Suc_upt[symmetric] del: upt_Suc)

lemma hex_to_bytes_0: "hex_to_bytes hex_str 0 = []"
  by (simp add: hex_to_bytes_def)

lemma length_bytes_to_hex: "length (bytes_to_hex data) = 2 * length data"
  by (induction data) simp_all

lemma hex_to_bytes_bytes_to_hex: "hex_to_bytes (bytes_to_hex data) (2 * length data) = data"
proof (induction data)
  case Nil
  show ?case by (simp add: hex_to_bytes_0)
next
  case (Cons b data)
  have "hex_char_to_nibble (HEX_CHARS ! unat (drop_bit 4 b)) = drop_bit 4 b"
    by (simp add: nibble_of_HEX_CHARS unat_hi_nibble)
  moreover have "hex_char_to_nibble (HEX_CHARS ! unat (b AND 15)) = b AND 15"
    by (simp add: nibble_of_HEX_CHARS unat_lo_nibble)
  ultimately show ?case
    using Cons.IH by (simp add: hex_to_bytes_step nibbles_rejoin)
qed

subsection \<open>UTF-8: decoding inverts encoding\<close>

lemma unat_byte_of_nat: "n < 256 \<Longrightarrow> unat (of_nat n :: byte) = n"
  by (simp only: unat_of_nat) simp

lemma utf8_split3: "(c::nat) div 4096 * 4096 + (c div 64 mod 64) * 64 + c mod 64 = c" 
proof -
  define q r q2 r2 where "q = c div 64" and "r = c mod 64" and "q2 = q div 64" and "r2 = q mod 64"
  have e1: "c = q * 64 + r" and e2: "q = q2 * 64 + r2" by (simp_all add: q_def r_def q2_def r2_def)
  have e3: "c div 4096 = q2" by (simp add: q2_def q_def div_mult2_eq)
  have "q2 * 4096 + r2 * 64 + r = (q2 * 64 + r2) * 64 + r" by (simp add: algebra_simps)
  then show ?thesis unfolding e3 unfolding r2_def[symmetric] q_def[symmetric] r_def[symmetric] using e1 e2 by simp
qed
lemma utf8_split4: "(c::nat) div 262144 * 262144 + (c div 4096 mod 64) * 4096 + (c div 64 mod 64) * 64 + c mod 64 = c"
proof -
  define q a b where "q = c div 4096" and "a = q div 64" and "b = q mod 64"
  have e3: "c div 262144 = a" by (simp add: a_def q_def div_mult2_eq)
  have e4: "q = a * 64 + b" by (simp add: a_def b_def)
  have "a * 262144 + b * 4096 = (a * 64 + b) * 4096" by (simp add: algebra_simps)
  then have "c div 262144 * 262144 + (c div 4096 mod 64) * 4096 = c div 4096 * 4096" 
    unfolding e3 e4[symmetric] unfolding b_def q_def .
  then show ?thesis using utf8_split3[of c] by simp
qed

lemma utf8_decode_encode_cp:
  assumes "utf8_encode_cp c = Inr bs"
  shows "utf8_decode (map unat bs @ rest) = dec_cons c (utf8_decode rest)"
proof -
  consider "c < 0x80" | "0x80 \<le> c" "c < 0x800" | "0x800 \<le> c" "c < 0x10000" "\<not> (0xD800 \<le> c \<and> c < 0xE000)"
    | "0x10000 \<le> c" "c < 0x110000"
    using assms by (auto simp: utf8_encode_cp_def split: if_splits)
  then show ?thesis
  proof cases
    case 1
    then have "bs = [of_nat c]" using assms by (simp add: utf8_encode_cp_def)
    then have "map unat bs = [c]" using 1 by (simp add: unat_byte_of_nat)
    then show ?thesis using 1 by simp
  next
    case 2
    have a: "0xC0 + c div 64 < 256" "0x80 + c mod 64 < 256" using 2 by auto
    have b: "2 \<le> c div 64" "c div 64 < 32" using 2 by auto
    have c: "c div 64 * 64 + c mod 64 = c" by simp
    from 2 have "bs = [of_nat (0xC0 + c div 64), of_nat (0x80 + c mod 64)]"
      using assms by (simp add: utf8_encode_cp_def del: of_nat_add of_nat_numeral)
    then have "map unat bs = [0xC0 + c div 64, 0x80 + c mod 64]" 
      by (simp only: list.map unat_byte_of_nat[OF a(1)] unat_byte_of_nat[OF a(2)])
    then show ?thesis using b c by (simp add: is_cont_def)
  next
    case 3
    have a: "0xE0 + c div 4096 < 256" "0x80 + c div 64 mod 64 < 256" "0x80 + c mod 64 < 256" using 3 by auto
    have b: "c div 4096 < 16" using 3 by auto
    note c = utf8_split3[of c]
    from 3 have "bs = [of_nat (0xE0 + c div 4096), of_nat (0x80 + c div 64 mod 64), of_nat (0x80 + c mod 64)]"
      using assms by (auto simp add: utf8_encode_cp_def simp del: of_nat_add of_nat_numeral split: if_splits)
    then have "map unat bs = [0xE0 + c div 4096, 0x80 + c div 64 mod 64, 0x80 + c mod 64]"
      by (simp only: list.map unat_byte_of_nat[OF a(1)] unat_byte_of_nat[OF a(2)] unat_byte_of_nat[OF a(3)])
    then show ?thesis using b c 3 by (simp add: is_cont_def Let_def)
  next
    case 4
    have a: "0xF0 + c div 262144 < 256" "0x80 + c div 4096 mod 64 < 256" "0x80 + c div 64 mod 64 < 256" "0x80 + c mod 64 < 256" using 4 by auto
    have b: "c div 262144 < 5" using 4 by auto
    note c = utf8_split4[of c]
    from 4 have "bs = [of_nat (0xF0 + c div 262144), of_nat (0x80 + c div 4096 mod 64), of_nat (0x80 + c div 64 mod 64), of_nat (0x80 + c mod 64)]"
      using assms by (simp add: utf8_encode_cp_def del: of_nat_add of_nat_numeral)
    then have "map unat bs = [0xF0 + c div 262144, 0x80 + c div 4096 mod 64, 0x80 + c div 64 mod 64, 0x80 + c mod 64]"
      by (simp only: list.map unat_byte_of_nat[OF a(1)] unat_byte_of_nat[OF a(2)] unat_byte_of_nat[OF a(3)] unat_byte_of_nat[OF a(4)])
    then show ?thesis using b c 4 by (simp add: is_cont_def Let_def)
  qed
qed

lemma decode_utf8_encode_utf8: "encode_utf8 s = Inr bs \<Longrightarrow> decode_utf8 bs = Inr s"
proof (induction s arbitrary: bs)
  case Nil
  then show ?case by (simp add: decode_utf8_def)
next
  case (Cons c s)
  then obtain b1 b2 where e: "utf8_encode_cp c = Inr b1" "encode_utf8 s = Inr b2" "bs = b1 @ b2"
    by (auto split: sum.splits)
  with Cons.IH have "decode_utf8 b2 = Inr s" by simp
  then show ?case using utf8_decode_encode_cp[OF e(1), of "map unat b2"] e(3)
    by (simp add: decode_utf8_def dec_cons_def)
qed

lemma dec_cons_Inl: "dec_cons c r = Inl e \<Longrightarrow> r = Inl e"
  by (cases r) (simp_all add: dec_cons_def)

lemma utf8_decode_error: "utf8_decode bs = Inl e \<Longrightarrow> e = UnicodeDecodeError"
proof (induction bs arbitrary: e rule: utf8_decode.induct)
  case 1
  then show ?case by simp
next
  case (2 b0 rest)
  show ?case
  proof (cases "utf8_decode (b0 # rest) = Inl UnicodeDecodeError")
    case True
    with "2.prems" show ?thesis by simp
  next
    case False
    consider (a) "b0 < 0x80" | (b) "\<not> b0 < 0x80" "0xC2 \<le> b0 \<and> b0 < 0xE0"
      | (c) "\<not> b0 < 0x80" "\<not> (0xC2 \<le> b0 \<and> b0 < 0xE0)" "0xE0 \<le> b0 \<and> b0 < 0xF0"
      | (d) "\<not> b0 < 0x80" "\<not> (0xC2 \<le> b0 \<and> b0 < 0xE0)" "\<not> (0xE0 \<le> b0 \<and> b0 < 0xF0)" "0xF0 \<le> b0 \<and> b0 < 0xF5"
      | (e) "\<not> b0 < 0x80" "\<not> (0xC2 \<le> b0 \<and> b0 < 0xE0)" "\<not> (0xE0 \<le> b0 \<and> b0 < 0xF0)" "\<not> (0xF0 \<le> b0 \<and> b0 < 0xF5)"
      by blast
    then show ?thesis
    proof cases
      case a
      with "2.prems" have "utf8_decode rest = Inl e" by (simp add: dec_cons_Inl)
      with "2.IH"(1)[OF a] show ?thesis .
    next
      case b
      with "2.prems" False obtain b1 r where r: "rest = b1 # r" "is_cont b1" "utf8_decode r = Inl e"
        by (cases rest) (auto split: if_splits dest: dec_cons_Inl)
      with "2.IH"(2)[OF b(1) b(2) r(1) r(2)] show ?thesis by blast
    next
      case c
      from c "2.prems" False obtain b1 b2 r where r: "rest = b1 # b2 # r" "utf8_decode r = Inl e"
        "is_cont b1 \<and> is_cont b2 \<and> 0x800 \<le> (b0 - 0xE0) * 4096 + (b1 - 0x80) * 64 + (b2 - 0x80) \<and> \<not> (0xD800 \<le> (b0 - 0xE0) * 4096 + (b1 - 0x80) * 64 + (b2 - 0x80) \<and> (b0 - 0xE0) * 4096 + (b1 - 0x80) * 64 + (b2 - 0x80) < 0xE000)"
        by (cases rest; cases "tl rest") (auto simp: Let_def split: if_splits dest: dec_cons_Inl)
      show ?thesis by (rule "2.IH"(3)[OF c(1) c(2) c(3) r(1) refl refl r(3) r(2)])
    next
      case d
      from d "2.prems" False obtain b1 b2 b3 r where r: "rest = b1 # b2 # b3 # r" "utf8_decode r = Inl e"
        "is_cont b1 \<and> is_cont b2 \<and> is_cont b3 \<and> 0x10000 \<le> (b0 - 0xF0) * 262144 + (b1 - 0x80) * 4096 + (b2 - 0x80) * 64 + (b3 - 0x80) \<and> (b0 - 0xF0) * 262144 + (b1 - 0x80) * 4096 + (b2 - 0x80) * 64 + (b3 - 0x80) < 0x110000"
        by (cases rest; cases "tl rest"; cases "tl (tl rest)") (auto simp: Let_def split: if_splits dest: dec_cons_Inl)
      show ?thesis by (rule "2.IH"(4)[OF d(1) d(2) d(3) d(4) r(1) refl refl refl r(3) r(2)])
    next
      case e
      with False show ?thesis by simp
    qed
  qed
qed

subsection \<open>Hex digits as code points and as bytes\<close>

lemma unat_nibble_of_nat: "c < 128 \<Longrightarrow> unat (hex_char_to_nibble (of_nat c)) = hex_val c"
proof -
  assume c: "c < 128"
  then have u: "unat (of_nat c :: byte) = c" by (simp add: unat_byte_of_nat)
  define w :: byte where "w = of_nat c"
  have uw: "unat w = c" by (simp add: w_def u)
  have s1: "48 \<le> w \<Longrightarrow> unat (w - 48) = c - 48" by (simp add: unat_sub uw)
  have s2: "97 \<le> w \<Longrightarrow> unat (w - 97 + 10) = c - 87"
  proof -
    assume a: "97 \<le> w"
    then have "87 \<le> w" by (simp add: word_le_nat_alt)
    then have "unat (w - 87) = c - 87" by (simp add: unat_sub uw)
    then show ?thesis by simp
  qed
  have s3: "65 \<le> w \<Longrightarrow> unat (w - 65 + 10) = c - 55"
  proof -
    assume a: "65 \<le> w"
    then have "55 \<le> w" by (simp add: word_le_nat_alt)
    then have "unat (w - 55) = c - 55" by (simp add: unat_sub uw)
    then show ?thesis by simp
  qed
  have cmp: "(48 \<le> w) = (48 \<le> c)" "(w \<le> 57) = (c \<le> 57)" "(97 \<le> w) = (97 \<le> c)"
     "(w \<le> 102) = (c \<le> 102)" "(65 \<le> w) = (65 \<le> c)" "(w \<le> 70) = (c \<le> 70)"
    by (simp_all add: word_le_nat_alt uw)
  show ?thesis
    unfolding w_def[symmetric] hex_char_to_nibble_def hex_val_def
    using s1 s2 s3 by (simp add: cmp)
qed

lemma is_hex_char_of_nat: "c < 128 \<Longrightarrow> is_hex_char (of_nat c) = hex_digit_cp c"
proof -
  assume c: "c < 128"
  then have u: "unat (of_nat c :: byte) = c" by (simp add: unat_byte_of_nat)
  show ?thesis by (simp add: is_hex_char_def hex_digit_cp_def word_le_nat_alt u)
qed

lemma hex_val_less: "hex_val c < 16"
  by (auto simp: hex_val_def)

lemma take_bit_4_small: "unat (y::byte) < 16 \<Longrightarrow> take_bit 4 y = y"
  by (simp add: word_unat_eq_iff take_bit_eq_mod unat_mod)

lemma unat_join_nibbles:
  fixes x y :: byte
  assumes "unat x < 16" "unat y < 16"
  shows "unat (push_bit 4 x OR y) = 16 * unat x + unat y"
proof -
  have "push_bit 4 x AND take_bit 4 y = 0"
    by (rule bit_word_eqI) (auto simp: bit_simps)
  then have "push_bit 4 x AND y = 0" using assms(2) by (simp add: take_bit_4_small)
  then have "push_bit 4 x OR y = push_bit 4 x + y"
    by (simp add: disjunctive_add_eq_or)
  moreover have "unat (push_bit 4 x) = 16 * unat x" using assms(1)
    by (simp add: push_bit_eq_mult unat_word_ariths)
  ultimately show ?thesis using assms by (simp add: unat_word_ariths)
qed

subsection \<open>Hex text: \<open>is_hex\<close>, \<open>to_hex\<close>, \<open>from_hex\<close>\<close>

lemma bytes_to_hex_ascii: "list_all (\<lambda>b. b < 128) (bytes_to_hex data)"
  by (induction data) (simp_all add: HEX_CHARS_ascii unat_hi_nibble unat_lo_nibble)

lemma encode_ascii_of_bytes:
  "list_all (\<lambda>b. b < 128) (data :: byte list) \<Longrightarrow> encode_ascii (map unat data) = Inr data"
  by (simp add: encode_ascii_def list.pred_map comp_def word_less_nat_alt)

lemma to_hex_cython_encodable:
  "encode_utf8 s = Inr bs \<Longrightarrow> to_hex_cython s = Inr (map unat (bytes_to_hex bs))"
  by (simp add: to_hex_cython_def decode_ascii_def bytes_to_hex_ascii)

lemma from_hex_cython_of_hex:
  "from_hex_cython (map unat (bytes_to_hex bs)) = decode_utf8 bs"
  using hex_to_bytes_bytes_to_hex[of bs]
  by (simp add: from_hex_cython_def encode_ascii_of_bytes bytes_to_hex_ascii length_bytes_to_hex Let_def)

lemma all_hex_chars_of_nat:
  "list_all (\<lambda>c. c < 128) s \<Longrightarrow> all_hex_chars (map of_nat s) = list_all hex_digit_cp s"
  by (induction s) (simp_all add: is_hex_char_of_nat)

lemma is_hex_cython_ascii:
  "is_ascii_str s \<Longrightarrow> is_hex_cython s = Inr (s \<noteq> [] \<and> list_all hex_digit_cp s)"
  by (simp add: is_hex_cython_def is_ascii_str_def encode_ascii_def all_hex_chars_of_nat)

lemma is_hex_cython_non_ascii:
  "\<not> is_ascii_str s \<Longrightarrow> is_hex_cython s = Inl UnicodeEncodeError"
  by (auto simp add: is_hex_cython_def is_ascii_str_def encode_ascii_def)

lemma hex_to_bytes_pairs:
  "is_ascii_str s \<Longrightarrow> even (length s) \<Longrightarrow>
     map unat (hex_to_bytes (map of_nat s) (length s)) = hex_pairs s"
proof (induction s rule: hex_pairs.induct)
  case (1 hi lo s)
  then have a: "hi < 128" "lo < 128" "is_ascii_str s" "even (length s)"
    by (simp_all add: is_ascii_str_def)
  have "unat (push_bit 4 (hex_char_to_nibble (of_nat hi)) OR hex_char_to_nibble (of_nat lo))
          = 16 * hex_val hi + hex_val lo"
    using a(1,2) by (simp add: unat_join_nibbles unat_nibble_of_nat hex_val_less)
  then show ?case using 1 a by (simp add: hex_to_bytes_step)
qed (simp_all add: hex_to_bytes_0)

lemma from_hex_cython_even_ascii:
  "is_ascii_str s \<Longrightarrow> even (length s) \<Longrightarrow> from_hex_cython s = utf8_decode (hex_pairs s)"
  by (simp add: from_hex_cython_def encode_ascii_def is_ascii_str_def[symmetric] decode_utf8_def hex_to_bytes_pairs Let_def)

lemma from_hex_cython_odd_ascii:
  "is_ascii_str s \<Longrightarrow> odd (length s) \<Longrightarrow>
     from_hex_cython s = Inl (ValueError ''Hex string must have even length'')"
  by (simp add: from_hex_cython_def encode_ascii_def is_ascii_str_def[symmetric] Let_def odd_iff_mod_2_eq_one)

lemma from_hex_cython_non_ascii:
  "\<not> is_ascii_str s \<Longrightarrow> from_hex_cython s = Inl UnicodeEncodeError"
  by (simp add: from_hex_cython_def encode_ascii_def is_ascii_str_def[symmetric])

lemma hex_digits_ascii: "list_all hex_digit_cp s \<Longrightarrow> is_ascii_str s"
  by (induction s) (auto simp: is_ascii_str_def hex_digit_cp_def)

lemma well_formed_hex_ascii: "well_formed_hex s \<Longrightarrow> is_ascii_str s"
  by (simp add: well_formed_hex_def hex_digits_ascii)

subsection \<open>Parsing the 48-bit timestamp\<close>

lemma unat_ucast_byte: "unat (ucast (x::byte) :: 64 word) = unat x"
proof -
  have "unat x < 2 ^ 64" using unsigned_less[of x, where 'a=nat] by simp
  then show ?thesis by (simp add: unsigned_ucast_eq take_bit_eq_mod)
qed

lemma take_bit_4_small64: "unat (y::64 word) < 16 \<Longrightarrow> take_bit 4 y = y"
  by (simp add: word_unat_eq_iff take_bit_eq_mod unat_mod)

lemma unat_shift_nibble:
  fixes r y :: "64 word"
  assumes "unat r < 2 ^ 60" "unat y < 16"
  shows "unat (push_bit 4 r OR y) = 16 * unat r + unat y"
proof -
  have "push_bit 4 r AND take_bit 4 y = 0"
    by (rule bit_word_eqI) (auto simp: bit_simps)
  then have "push_bit 4 r AND y = 0" using assms(2) by (simp add: take_bit_4_small64)
  then have "push_bit 4 r OR y = push_bit 4 r + y"
    by (simp add: disjunctive_add_eq_or)
  moreover have "unat (push_bit 4 r) = 16 * unat r" using assms(1)
    by (simp add: push_bit_eq_mult unat_word_ariths)
  ultimately show ?thesis using assms by (simp add: unat_word_ariths)
qed

lemma hex_value_snoc: "hex_value (s @ [c]) = 16 * hex_value s + hex_val c"
  by (simp add: hex_value_def)

lemma hex_value_bound: "hex_value s < 16 ^ length s"
proof (induction s rule: rev_induct)
  case Nil
  show ?case by (simp add: hex_value_def)
next
  case (snoc c s)
  have "hex_val c < 16" by (rule hex_val_less)
  with snoc show ?case by (simp add: hex_value_snoc)
qed

lemma parse_prefix:
  assumes "is_ascii_str s" "k \<le> length s" "k \<le> 12"
  shows "unat (fold (\<lambda>i result. push_bit 4 result OR ucast (hex_char_to_nibble (map of_nat s ! i)))
                 [0 ..< k] (0 :: 64 word)) = hex_value (take k s)"
  using assms(2,3)
proof (induction k)
  case 0
  show ?case by (simp add: hex_value_def)
next
  case (Suc k)
  let ?r = "fold (\<lambda>i result. push_bit 4 result OR ucast (hex_char_to_nibble (map of_nat s ! i)))
                 [0 ..< k] (0 :: 64 word)"
  have ih: "unat ?r = hex_value (take k s)" using Suc by simp
  have k: "k < length s" using Suc.prems by simp
  then have asc: "s ! k < 128" using assms(1) by (simp add: is_ascii_str_def list_all_length)
  have "hex_value (take k s) < 16 ^ k" using hex_value_bound[of "take k s"] k by simp
  also have "(16::nat) ^ k \<le> 16 ^ 11" using Suc.prems by (intro power_increasing) simp_all
  finally have b: "unat ?r < 2 ^ 60" using ih by simp
  have n: "unat (ucast (hex_char_to_nibble (of_nat (s ! k))) :: 64 word) = hex_val (s ! k)"
    using asc by (simp add: unat_ucast_byte unat_nibble_of_nat)
  have "unat (push_bit 4 ?r OR ucast (hex_char_to_nibble (of_nat (s ! k)))) = 16 * unat ?r + hex_val (s ! k)"
    using unat_shift_nibble[OF b, of "ucast (hex_char_to_nibble (of_nat (s ! k)))"] n hex_val_less[of "s ! k"]
    by simp
  then show ?case using ih k by (simp add: take_Suc_conv_app_nth hex_value_snoc)
qed

lemma unat_parse_hex_u48:
  "is_ascii_str s \<Longrightarrow> 12 \<le> length s \<Longrightarrow>
     unat (parse_hex_u48 (map of_nat s)) = hex_value (take 12 s)"
  unfolding parse_hex_u48_def by (rule parse_prefix) simp_all

lemma hex_value_12_bound: "12 \<le> length s \<Longrightarrow> hex_value (take 12 s) < 2 ^ 48"
  using hex_value_bound[of "take 12 s"] by simp

lemma parse_hex_u48_of_nat:
  assumes "is_ascii_str s" "12 \<le> length s"
  shows "parse_hex_u48 (map of_nat s) = of_nat (hex_value (take 12 s))"
proof -
  have "parse_hex_u48 (map of_nat s) = of_nat (unat (parse_hex_u48 (map of_nat s)))" by simp
  then show ?thesis using unat_parse_hex_u48[OF assms] by simp
qed

subsection \<open>The layout of a UUIDv7\<close>

lemma unat_version_byte: "unat (((x::byte) AND 0x0F) OR 0x70) div 16 = 7"
proof -
  have "(0x70::byte) = push_bit 4 7" by simp
  then have "(x AND 0x0F) OR 0x70 = push_bit 4 7 OR (x AND 0x0F)"
    by (simp only: or.commute)
  moreover have "unat (push_bit 4 (7::byte) OR (x AND 0x0F)) = 16 * unat (7::byte) + unat (x AND 0x0F)"
    by (rule unat_join_nibbles) (simp_all add: unat_lo_nibble)
  ultimately show ?thesis using unat_lo_nibble[of x] by simp
qed

lemma and_63_take_bit: "(b::byte) AND 0x3F = take_bit 6 b"
  by (simp add: take_bit_eq_mask mask_eq_exp_minus_1)

lemma bit_128: "bit (128::byte) n = (n = 7)"
proof -
  have "(128::byte) = 2 ^ 7" by simp
  then show ?thesis by (simp only: bit_exp_iff) (auto simp: possible_bit_word)
qed

lemma unat_variant_byte: "unat (((x::byte) AND 0x3F) OR 0x80) div 64 = 2"
proof -
  have "(128::byte) AND take_bit 6 x = 0"
  proof (rule bit_word_eqI)
    fix n
    show "bit (128 AND take_bit 6 x) n = bit (0::byte) n"
      using bit_128[of n] by (auto simp: bit_and_iff bit_take_bit_iff)
  qed
  then have "(x AND 0x3F) OR 0x80 = 0x80 + (x AND 0x3F)"
    by (simp add: and_63_take_bit disjunctive_add_eq_or or.commute)
  moreover have "unat (x AND 0x3F) < 64"
    by (simp add: and_63_take_bit take_bit_eq_mod unat_mod)
  ultimately show ?thesis by (simp add: unat_word_ariths)
qed

lemma uuidv7_bytes_length: "length (uuidv7_bytes ts_ms rnd) = 16"
  by (simp add: uuidv7_bytes_def write_u48_be_def)

lemma uuid_str_nth:
  assumes "length b = 16"
  shows "\<exists>u. uuid_str b = Inr u \<and> length u = 36
            \<and> u ! 14 = py_hex_digit (unat (b ! 6) div 16)
            \<and> u ! 16 = py_hex_digit (unat (b ! 7) div 16)
            \<and> u ! 19 = py_hex_digit (unat (b ! 8) div 16)"
proof -
  from assms obtain b0 b1 b2 b3 b4 b5 b6 b7 b8 b9 b10 b11 b12 b13 b14 b15
    where b: "b = [b0,b1,b2,b3,b4,b5,b6,b7,b8,b9,b10,b11,b12,b13,b14,b15]"
    by (auto simp: length_Suc_conv numeral_eq_Suc)
  show ?thesis unfolding b
    by (simp add: uuid_str_def py_hex32_def)
qed

lemma uuidv7_bytes_nth:
  "uuidv7_bytes ts_ms rnd ! 6 = (rnd ! 0 AND 0x0F) OR 0x70"
  "uuidv7_bytes ts_ms rnd ! 7 = (rnd ! 1 AND 0x3F) OR 0x80"
  "uuidv7_bytes ts_ms rnd ! 8 = rnd ! 2"
  by (simp_all add: uuidv7_bytes_def write_u48_be_def)

lemma uuidv7_cython_layout:
  "\<exists>u. uuidv7_cython ts_ms rnd = Inr u \<and> length u = 36
       \<and> u ! 14 = 55
       \<and> u ! 16 = py_hex_digit (unat ((rnd ! 1 AND 0x3F) OR 0x80) div 16)
       \<and> unat ((rnd ! 1 AND 0x3F) OR 0x80) div 64 = 2
       \<and> u ! 19 = py_hex_digit (unat (rnd ! 2) div 16)"
  using uuid_str_nth[OF uuidv7_bytes_length, of ts_ms rnd]
  by (simp add: uuidv7_cython_def uuidv7_bytes_nth unat_version_byte unat_variant_byte py_hex_digit_def)

subsection \<open>The stable UUID\<close>

lemma upper_ascii_hex_digit:
  "n < 16 \<Longrightarrow>
     (if 97 \<le> py_hex_digit n \<and> py_hex_digit n \<le> 122 then py_hex_digit n - 32 else py_hex_digit n)
       = upper_hex_digit n"
  by (auto simp: py_hex_digit_def upper_hex_digit_def)

lemma byte_nibbles_less: "unat (x::byte) div 16 < 16" "unat x mod 16 < 16"
  using unsigned_less[of x, where 'a=nat] by (simp_all add: less_mult_imp_div_less)

lemma upper_ascii_py_hex32: "upper_ascii (py_hex32 b) = upper_hex b"
  by (induction b)
     (simp_all add: upper_ascii_def py_hex32_def upper_hex_def upper_ascii_hex_digit byte_nibbles_less)

lemma upper_ascii_dashed: "upper_ascii (dashed h) = dashed (upper_ascii h)"
  by (simp add: dashed_def upper_ascii_def take_map drop_map)

lemma uuid_str_16: "length b = 16 \<Longrightarrow> uuid_str b = Inr (dashed (py_hex32 b))"
  by (simp add: uuid_str_def dashed_def Let_def)

lemma to_stable_uuid_cython_nonempty:
  assumes "parts \<noteq> []" "encode_utf8 (join [124] parts) = Inr bs" "length (md5 bs) = 16"
  shows "to_stable_uuid_cython md5 parts = Inr (upper_dashed_hex (md5 bs))"
proof -
  have "hex_to_bytes (bytes_to_hex (md5 bs)) 32 = md5 bs"
    using hex_to_bytes_bytes_to_hex[of "md5 bs"] assms(3) by simp
  then show ?thesis using assms
    by (simp add: to_stable_uuid_cython_def Let_def uuid_str_16 upper_ascii_dashed
          upper_ascii_py_hex32 upper_dashed_hex_def)
qed

lemma length_upper_hex: "length (upper_hex d) = 2 * length d"
  by (induction d) (simp_all add: upper_hex_def)

lemma upper_hex_no_dash: "45 \<notin> set (upper_hex d)"
  by (induction d) (auto simp: upper_hex_def upper_hex_digit_def)

lemma filter_dashed:
  assumes "45 \<notin> set h" "20 \<le> length h"
  shows "filter (\<lambda>c. c \<noteq> 45) (dashed h) = h"
proof -
  have f: "\<And>xs. set xs \<subseteq> set h \<Longrightarrow> filter (\<lambda>c. c \<noteq> 45) xs = xs"
    using assms(1) by (auto simp: filter_id_conv)
  have "filter (\<lambda>c. c \<noteq> 45) (dashed h)
          = take 8 h @ take 4 (drop 8 h) @ take 4 (drop 12 h) @ take 4 (drop 16 h) @ drop 20 h"
    by (simp add: dashed_def f set_take_subset set_drop_subset
          subset_trans[OF set_take_subset set_drop_subset])
  also have "\<dots> = take 8 h @ take 4 (drop 8 h) @ take 4 (drop 12 h) @ drop 16 h"
    using append_take_drop_id[of 4 "drop 16 h"] by simp
  also have "\<dots> = take 8 h @ take 4 (drop 8 h) @ drop 12 h"
    using append_take_drop_id[of 4 "drop 12 h"] by simp
  also have "\<dots> = take 8 h @ drop 8 h"
    using append_take_drop_id[of 4 "drop 8 h"] by simp
  finally show ?thesis by simp
qed

lemma upper_hex_digit_inj:
  "m < 16 \<Longrightarrow> n < 16 \<Longrightarrow> upper_hex_digit m = upper_hex_digit n \<Longrightarrow> m = n"
  by (simp add: upper_hex_digit_def split: if_splits)

lemma byte_eq_by_nibbles:
  assumes "upper_hex_digit (unat (x::byte) div 16) = upper_hex_digit (unat (y::byte) div 16)"
      "upper_hex_digit (unat x mod 16) = upper_hex_digit (unat y mod 16)"
  shows "x = y"
proof -
  have a: "unat x div 16 = unat y div 16"
    by (rule upper_hex_digit_inj[OF byte_nibbles_less(1) byte_nibbles_less(1) assms(1)])
  have b: "unat x mod 16 = unat y mod 16"
    by (rule upper_hex_digit_inj[OF byte_nibbles_less(2) byte_nibbles_less(2) assms(2)])
  have "unat x = unat x div 16 * 16 + unat x mod 16"
    by (rule div_mult_mod_eq[symmetric])
  also have "\<dots> = unat y div 16 * 16 + unat y mod 16"
    unfolding a b by (rule refl)
  also have "\<dots> = unat y"
    by (rule div_mult_mod_eq)
  finally show "x = y" by (rule word_unat_eq_iff[THEN iffD2])
qed

lemma upper_hex_Cons:
  "upper_hex (x # d) = upper_hex_digit (unat x div 16) # upper_hex_digit (unat x mod 16) # upper_hex d"
  by (simp add: upper_hex_def)

lemma upper_hex_Nil: "upper_hex [] = []"
  by (simp add: upper_hex_def)

lemma upper_hex_inj: "upper_hex d = upper_hex d' \<Longrightarrow> d = d'"
proof (induction d arbitrary: d')
  case Nil
  then have "length (upper_hex d') = 0" by (simp add: upper_hex_Nil)
  then show ?case by (simp add: length_upper_hex)
next
  case (Cons x d)
  have "d' \<noteq> []"
  proof
    assume "d' = []"
    with Cons.prems show False by (simp add: upper_hex_Cons upper_hex_Nil)
  qed
  then obtain y e where d': "d' = y # e" by (cases d') simp_all
  from Cons.prems have eq: "upper_hex_digit (unat x div 16) = upper_hex_digit (unat y div 16)"
      "upper_hex_digit (unat x mod 16) = upper_hex_digit (unat y mod 16)" "upper_hex d = upper_hex e"
    unfolding d' upper_hex_Cons by simp_all
  have "x = y" by (rule byte_eq_by_nibbles[OF eq(1) eq(2)])
  with Cons.IH[OF eq(3)] d' show ?case by simp
qed

lemma filter_dashed_upper_hex:
  assumes "length d = 16"
  shows "filter (\<lambda>c. c \<noteq> 45) (upper_dashed_hex d) = upper_hex d"
proof -
  have "20 \<le> length (upper_hex d)" unfolding length_upper_hex assms by simp
  then show ?thesis
    unfolding upper_dashed_hex_def by (rule filter_dashed[OF upper_hex_no_dash])
qed

lemma upper_dashed_hex_inj:
  assumes "length d = 16" "length d' = 16" "upper_dashed_hex d = upper_dashed_hex d'"
  shows "d = d'"
proof -
  have "upper_hex d = filter (\<lambda>c. c \<noteq> 45) (upper_dashed_hex d)"
    by (rule filter_dashed_upper_hex[OF assms(1), symmetric])
  also have "\<dots> = filter (\<lambda>c. c \<noteq> 45) (upper_dashed_hex d')"
    unfolding assms(3) by (rule refl)
  also have "\<dots> = upper_hex d'"
    by (rule filter_dashed_upper_hex[OF assms(2)])
  finally show ?thesis by (rule upper_hex_inj)
qed

lemma encode_utf8_a_b:
  "encode_utf8 (join [124] [lit ''a'', lit ''b'']) = Inr (blit ''a|b'')"
  "encode_utf8 (join [124] [lit ''b'', lit ''a'']) = Inr (blit ''b|a'')"
  by (simp_all add: lit_def blit_def utf8_encode_cp_def)

subsection \<open>The merge loop\<close>

lemma map_of_dict_set: "map_of (dict_set d k v) = (map_of d)(k \<mapsto> v)"
  by (induction d) (auto simp: fun_eq_iff)

lemma dict_set_keys: "map_of d k \<noteq> None \<Longrightarrow> map fst (dict_set d k v) = map fst d"
  by (induction d) (auto split: if_splits)

lemma merge_loop_keys: "map fst (merge_loop E ks d) = map fst d"
proof (induction ks arbitrary: d)
  case Nil
  show ?case by simp
next
  case (Cons k ks)
  show ?case
  proof (cases "asks_merge d k \<and> map_of d k \<noteq> None")
    case False
    then have "merge_loop E (k # ks) d = merge_loop E ks d"
      by (auto simp: asks_merge_def Let_def split: pyval.splits option.splits)
    with Cons.IH show ?thesis by simp
  next
    case True
    then obtain s cur pv where k: "k = VStr s" "startswith_underscore s"
        "map_of d (VStr (lstrip_underscore s)) = Some cur" "map_of d k = Some pv"
      by (auto simp: asks_merge_def split: pyval.splits)
    then have "merge_loop E (k # ks) d
                 = merge_loop E ks (dict_set d (VStr (lstrip_underscore s)) (py_or E cur pv))"
      by (simp add: Let_def)
    with Cons.IH[of "dict_set d (VStr (lstrip_underscore s)) (py_or E cur pv)"] k(3)
    show ?thesis by (simp add: dict_set_keys)
  qed
qed

lemma merge_loop_id: "list_all (\<lambda>k. \<not> asks_merge d k) ks \<Longrightarrow> merge_loop E ks d = d"
proof (induction ks)
  case Nil
  show ?case by simp
next
  case (Cons k ks)
  then have "\<not> asks_merge d k" and r: "list_all (\<lambda>k. \<not> asks_merge d k) ks" by simp_all
  then have "merge_loop E (k # ks) d = merge_loop E ks d"
    by (auto simp: asks_merge_def Let_def split: pyval.splits option.splits)
  with Cons.IH[OF r] show ?case by simp
qed

subsection \<open>What \<open>change_keys_case\<close> leaves of its argument\<close>

lemma map_fst_items_unchanged:
  assumes "\<And>item. item \<in> set xs \<Longrightarrow> c item \<Longrightarrow> fst (f item) = item"
  shows "map fst (map (\<lambda>item. if c item then f item else (item, item)) xs) = xs"
  using assms by (induction xs) simp_all

lemma change_keys_case_input_unchanged:
  "merge_free deep v \<Longrightarrow> fst (change_keys_case E method deep v) = v"
proof (induction E "method" deep v rule: change_keys_case.induct)
  case (3 E "method" deep input_obj)
  let ?d = "merge_loop E (map fst input_obj) input_obj"
  let ?F = "\<lambda>(key, value).
              if deep \<and> is_iterable_except_str_like_cython E value
              then (let (value', r) = change_keys_case E method deep value
                    in ((key, value'), (method_key E method key, r)))
              else ((key, value), (method_key E method key, value))"
  from "3.prems" have nm: "list_all (\<lambda>k. \<not> asks_merge input_obj k) (map fst input_obj)"
    and nested: "deep \<Longrightarrow> list_all (\<lambda>v. merge_free deep v) (map snd input_obj)"
    by simp_all
  have d: "?d = input_obj" using nm by (rule merge_loop_id)
  have "fst (?F kv) = kv" if kv: "kv \<in> set input_obj" for kv
  proof -
    obtain key val where p: "kv = (key, val)" by (cases kv)
    show ?thesis
    proof (cases "deep \<and> is_iterable_except_str_like_cython E val")
      case False
      then show ?thesis unfolding p by auto
    next
      case True
      then have "merge_free deep val"
        using nested kv unfolding p by (auto simp: list_all_iff)
      from "3.IH"[OF refl _ refl True this] kv
      have "fst (change_keys_case E method deep val) = val" unfolding d p by simp
      then show ?thesis using True unfolding p by (simp add: case_prod_beta)
    qed
  qed
  then have "map fst (map ?F input_obj) = input_obj"
    by (induction input_obj) simp_all
  then show ?case unfolding change_keys_case.simps Let_def d by simp
next
  case (4 E "method" deep input_obj)
  have "map fst (map (\<lambda>item. if deep \<and> is_iterable_except_str_like_cython E item
                              then change_keys_case E method deep item else (item, item)) input_obj)
          = input_obj"
  proof (rule map_fst_items_unchanged)
    fix item assume i: "item \<in> set input_obj" and c: "deep \<and> is_iterable_except_str_like_cython E item"
    then have "merge_free deep item" using "4.prems" by (auto simp: list_all_iff)
    from "4.IH"[OF i c this] show "fst (change_keys_case E method deep item) = item" .
  qed
  then show ?case by (simp add: Let_def)
next
  case (5 E "method" deep input_obj)
  have "map fst (map (\<lambda>item. if deep \<and> is_iterable_except_str_like_cython E item
                              then change_keys_case E method deep item else (item, item)) input_obj)
          = input_obj"
  proof (rule map_fst_items_unchanged)
    fix item assume i: "item \<in> set input_obj" and c: "deep \<and> is_iterable_except_str_like_cython E item"
    then have "merge_free deep item" using "5.prems" by (auto simp: list_all_iff)
    from "5.IH"[OF i c this] show "fst (change_keys_case E method deep item) = item" .
  qed
  then show ?case by (simp add: Let_def)
next
  case (6 E "method" deep input_obj)
  have "map fst (map (\<lambda>item. if deep \<and> is_iterable_except_str_like_cython E item
                              then change_keys_case E method deep item else (item, item)) input_obj)
          = input_obj"
  proof (rule map_fst_items_unchanged)
    fix item assume i: "item \<in> set input_obj" and c: "deep \<and> is_iterable_except_str_like_cython E item"
    then have "merge_free deep item" using "6.prems" by (auto simp: list_all_iff)
    from "6.IH"[OF i c this] show "fst (change_keys_case E method deep item) = item" .
  qed
  then show ?case by (simp add: Let_def)
qed simp_all

lemma change_keys_case_input_keys:
  "\<exists>d'. fst (change_keys_case E method deep (VDict d)) = VDict d' \<and> map fst d' = map fst d"
proof -
  let ?d = "merge_loop E (map fst d) d"
  let ?F = "\<lambda>(key, value).
              if deep \<and> is_iterable_except_str_like_cython E value
              then (let (value', r) = change_keys_case E method deep value
                    in ((key, value'), (method_key E method key, r)))
              else ((key, value), (method_key E method key, value))"
  have "fst (fst (?F kv)) = fst kv" for kv
    by (cases kv) (simp add: case_prod_beta)
  then have "map fst (map fst (map ?F ?d)) = map fst ?d"
    by (simp add: comp_def)
  then have "map fst (map fst (map ?F ?d)) = map fst d"
    by (simp only: merge_loop_keys)
  then show ?thesis unfolding change_keys_case.simps Let_def by simp
qed

lemma change_keys_case_shallow_input:
  "fst (change_keys_case E method False (VDict d)) = VDict (merge_loop E (map fst d) d)"
proof -
  have "map fst (map (\<lambda>(key, value). ((key, value), (method_key E method key, value))) xs) = xs" for xs
    by (induction xs) auto
  then show ?thesis by (simp add: Let_def)
qed

subsection \<open>Container kinds\<close>

lemma iterable_not_string_like:
  "is_iterable_except_str_like_cython E v \<Longrightarrow> \<not> string_like v"
  by (cases v) (simp_all add: string_like_def)

lemma map_result_rel: "map_result f xs = Inr ys \<Longrightarrow> list_all2 (\<lambda>x y. f x = Inr y) xs ys"
proof (induction xs arbitrary: ys)
  case Nil
  then show ?case by simp
next
  case (Cons x xs)
  then obtain y where y: "f x = Inr y" by (cases "f x") auto
  with Cons.prems obtain ys' where ys': "map_result f xs = Inr ys'" "ys = y # ys'"
    by (cases "map_result f xs") auto
  from Cons.IH[OF ys'(1)] y ys'(2) show ?case by simp
qed

subsection \<open>The entries of the output mapping\<close>

lemma lstrip_not_prefixed: "\<not> startswith_underscore (lstrip_underscore t)"
proof (cases "lstrip_underscore t")
  case Nil
  then show ?thesis by (simp add: startswith_underscore_def)
next
  case (Cons c cs)
  then have "c = hd (dropWhile (\<lambda>c. c = 95) t)" "dropWhile (\<lambda>c. c = 95) t \<noteq> []"
    by (simp_all add: lstrip_underscore_def)
  then have "c \<noteq> 95" using hd_dropWhile[of "\<lambda>c. c = 95" t] by simp
  with Cons show ?thesis by (simp add: startswith_underscore_def)
qed

lemma map_of_foldl_dict_set:
  "map_of (foldl (\<lambda>out (new_key, r). dict_set out new_key r) acc items)
     = map_of acc ++ map_of (rev items)"
proof (induction items arbitrary: acc)
  case Nil
  show ?case by simp
next
  case (Cons x items)
  obtain k v where x: "x = (k, v)" by (cases x)
  have "map_of (foldl (\<lambda>out (new_key, r). dict_set out new_key r) acc (x # items))
          = map_of (dict_set acc k v) ++ map_of (rev items)"
    unfolding x using Cons.IH[of "dict_set acc k v"] by simp
  also have "\<dots> = (map_of acc)(k \<mapsto> v) ++ map_of (rev items)"
    by (simp only: map_of_dict_set)
  also have "\<dots> = map_of acc ++ ([k \<mapsto> v] ++ map_of (rev items))"
    by (simp add: fun_eq_iff map_add_def split: option.splits)
  also have "[k \<mapsto> v] ++ map_of (rev items) = map_of (rev (x # items))"
    unfolding x by simp
  finally show ?case .
qed

lemma map_of_build_out: "map_of (build_out items) = map_of (rev items)"
  unfolding build_out_def by (simp add: map_of_foldl_dict_set)

lemma change_keys_case_dict_out:
  "snd (change_keys_case E method deep (VDict d))
     = VDict (build_out (map (\<lambda>(key, value).
         (method_key E method key,
          if deep \<and> is_iterable_except_str_like_cython E value
          then snd (change_keys_case E method deep value) else value))
         (merge_loop E (map fst d) d)))"
proof -
  have "snd ((\<lambda>(key, value).
              if deep \<and> is_iterable_except_str_like_cython E value
              then (let (value', r) = change_keys_case E method deep value
                    in ((key, value'), (method_key E method key, r)))
              else ((key, value), (method_key E method key, value))) kv)
        = (\<lambda>(key, value).
             (method_key E method key,
              if deep \<and> is_iterable_except_str_like_cython E value
              then snd (change_keys_case E method deep value) else value)) kv" for kv
    by (cases kv) (simp add: case_prod_beta)
  then show ?thesis by (simp add: Let_def comp_def)
qed

subsection \<open>The merge loop, key by key\<close>

lemma prefixed_values_Cons:
  "prefixed_values ((k, pv) # rest) c
     = (if prefixed_for c k then pv # prefixed_values rest c else prefixed_values rest c)"
  by (simp add: prefixed_values_def)

lemma map_value_other:
  "c \<notin> fst ` set d \<Longrightarrow> map (\<lambda>(k, w). (k, if k = c then x else w)) d = d"
  by (induction d) auto

lemma dict_set_map:
  "distinct (map fst d) \<Longrightarrow> c \<in> fst ` set d \<Longrightarrow>
     dict_set d c x = map (\<lambda>(k, w). (k, if k = c then x else w)) d"
proof (induction d)
  case Nil
  then show ?case by simp
next
  case (Cons kv d)
  obtain a w where kv: "kv = (a, w)" by (cases kv)
  show ?case
  proof (cases "a = c")
    case True
    with Cons.prems(1) have "c \<notin> fst ` set d" unfolding kv by simp
    from map_value_other[OF this] True show ?thesis unfolding kv by simp
  next
    case False
    with Cons.prems have "distinct (map fst d)" "c \<in> fst ` set d" unfolding kv by auto
    from Cons.IH[OF this] False show ?thesis unfolding kv by simp
  qed
qed

lemma first_truthy_or:
  "first_truthy E (py_or E cur pv) rest = first_truthy E cur (pv # rest)"
  by (cases rest) (simp_all add: py_or_def)

lemma merge_loop_closed:
  assumes "distinct (map fst d)"
    and "\<And>s pv. (VStr s, pv) \<in> set rest \<Longrightarrow> startswith_underscore s \<Longrightarrow> map_of d (VStr s) = Some pv"
  shows "merge_loop E (map fst rest) d
           = map (\<lambda>(c, cur). (c, first_truthy E cur (prefixed_values rest c))) d"
  using assms
proof (induction rest arbitrary: d)
  case Nil
  have "map (\<lambda>(c, cur). (c, cur)) d = d" by (induction d) auto
  then show ?case by (simp add: prefixed_values_def)
next
  case (Cons kpv rest)
  obtain k pv where kpv: "kpv = (k, pv)" by (cases kpv)
  have rest_ok: "map_of d' (VStr s) = Some pv'"
    if "(VStr s, pv') \<in> set rest" "startswith_underscore s"
       "\<And>s. startswith_underscore s \<Longrightarrow> map_of d' (VStr s) = map_of d (VStr s)" for d' s pv'
    using Cons.prems(2)[of s pv'] that by simp
  have same: "merge_loop E (map fst (kpv # rest)) d
                = map (\<lambda>(c, cur). (c, first_truthy E cur (prefixed_values (kpv # rest) c))) d"
    if skip: "merge_loop E (k # map fst rest) d = merge_loop E (map fst rest) d"
      and np: "\<And>c cur. (c, cur) \<in> set d \<Longrightarrow> \<not> prefixed_for c k"
  proof -
    have "merge_loop E (map fst rest) d
            = map (\<lambda>(c, cur). (c, first_truthy E cur (prefixed_values rest c))) d"
      by (rule Cons.IH[OF Cons.prems(1)]) (rule rest_ok, assumption+, rule refl)
    moreover have "map (\<lambda>(c, cur). (c, first_truthy E cur (prefixed_values rest c))) d
            = map (\<lambda>(c, cur). (c, first_truthy E cur (prefixed_values (kpv # rest) c))) d"
      by (rule map_cong[OF refl]) (use np in \<open>auto simp: kpv prefixed_values_Cons\<close>)
    ultimately show ?thesis using skip unfolding kpv by simp
  qed
  show ?case
  proof (cases "\<exists>s. k = VStr s \<and> startswith_underscore s")
    case False
    then have "merge_loop E (k # map fst rest) d = merge_loop E (map fst rest) d"
      by (cases k) simp_all
    moreover from False have "\<not> prefixed_for c k" for c
      by (cases k) (simp_all add: prefixed_for_def)
    ultimately show ?thesis by (rule same)
  next
    case True
    then obtain s where s: "k = VStr s" "startswith_underscore s" by blast
    let ?c0 = "VStr (lstrip_underscore s)"
    have pf: "prefixed_for c k \<longleftrightarrow> c = ?c0" for c
      using s by (simp add: prefixed_for_def)
    from Cons.prems(2)[of s pv] s have kv: "map_of d k = Some pv" unfolding kpv by simp
    show ?thesis
    proof (cases "map_of d ?c0")
      case None
      then have "merge_loop E (k # map fst rest) d = merge_loop E (map fst rest) d"
        using s by (simp add: Let_def)
      moreover have "\<not> prefixed_for c k" if "(c, cur) \<in> set d" for c cur
      proof -
        from that have "map_of d c \<noteq> None" by (simp add: map_of_eq_None_iff rev_image_eqI)
        with None show ?thesis unfolding pf by auto
      qed
      ultimately show ?thesis by (rule same)
    next
      case (Some cur0)
      let ?d = "dict_set d ?c0 (py_or E cur0 pv)"
      have in_d: "?c0 \<in> fst ` set d" using map_of_SomeD[OF Some] by (rule rev_image_eqI) simp
      have step: "merge_loop E (k # map fst rest) d = merge_loop E (map fst rest) ?d"
        using s Some kv by (simp add: Let_def)
      have d': "?d = map (\<lambda>(k, w). (k, if k = ?c0 then py_or E cur0 pv else w)) d"
        by (rule dict_set_map[OF Cons.prems(1) in_d])
      have keys: "map fst ?d = map fst d" using Some by (simp add: dict_set_keys)
      have dist: "distinct (map fst ?d)" unfolding keys by (rule Cons.prems(1))
      have pre: "map_of ?d (VStr t) = map_of d (VStr t)" if "startswith_underscore t" for t
      proof -
        have "t \<noteq> lstrip_underscore s" using that lstrip_not_prefixed[of s] by auto
        then show ?thesis by (simp add: map_of_dict_set)
      qed
      have ih: "merge_loop E (map fst rest) ?d
                  = map (\<lambda>(c, cur). (c, first_truthy E cur (prefixed_values rest c))) ?d"
        by (rule Cons.IH[OF dist]) (rule rest_ok, assumption+, rule pre)
      have "map (\<lambda>(c, cur). (c, first_truthy E cur (prefixed_values rest c))) ?d
              = map (\<lambda>(c, cur). (c, first_truthy E cur (prefixed_values (kpv # rest) c))) d"
        unfolding d' map_map
      proof (rule map_cong[OF refl])
        fix x assume x: "x \<in> set d"
        obtain c cur where p: "x = (c, cur)" by (cases x)
        show "((\<lambda>(c, cur). (c, first_truthy E cur (prefixed_values rest c))) \<circ>
               (\<lambda>(k, w). (k, if k = ?c0 then py_or E cur0 pv else w))) x
              = (\<lambda>(c, cur). (c, first_truthy E cur (prefixed_values (kpv # rest) c))) x"
        proof (cases "c = ?c0")
          case True
          from x have "map_of d c = Some cur" unfolding p using Cons.prems(1) by simp
          with Some True have "cur = cur0" by simp
          with True show ?thesis
            unfolding p kpv by (simp add: prefixed_values_Cons pf first_truthy_or)
        next
          case False
          then show ?thesis unfolding p kpv by (simp add: prefixed_values_Cons pf)
        qed
      qed
      with ih step show ?thesis unfolding kpv by simp
    qed
  qed
qed

lemma merge_loop_merged:
  assumes "distinct (map fst d)"
  shows "merge_loop E (map fst d) d = merged E d"
  unfolding merged_def
proof (rule merge_loop_closed[OF assms])
  fix s pv assume "(VStr s, pv) \<in> set d"
  with assms show "map_of d (VStr s) = Some pv" by simp
qed

lemma merged_keys: "map fst (merged E d) = map fst d"
  unfolding merged_def by (induction d) auto

lemma prefixed_not_candidate:
  "startswith_underscore s \<Longrightarrow> prefixed_values d (VStr s) = []"
proof -
  assume s: "startswith_underscore s"
  have "\<not> prefixed_for (VStr s) k" for k :: "'a pyval"
  proof (cases k)
    case (VStr t)
    from s lstrip_not_prefixed[of t] have "s \<noteq> lstrip_underscore t" by auto
    then show ?thesis unfolding VStr by (simp add: prefixed_for_def)
  qed (simp_all add: prefixed_for_def)
  then show ?thesis by (simp add: prefixed_values_def)
qed

lemma merged_split:
  assumes "d = xs @ (VStr s, v) # ys" "startswith_underscore s"
  shows "\<exists>xs' ys'. merged E d = xs' @ (VStr s, v) # ys' \<and> map fst ys' = map fst ys"
proof -
  let ?g = "\<lambda>(c, cur). (c, first_truthy E cur (prefixed_values d c))"
  have "merged E d = map ?g xs @ ?g (VStr s, v) # map ?g ys"
    unfolding merged_def by (subst assms(1)) simp
  moreover have "?g (VStr s, v) = (VStr s, v)"
    by (simp add: prefixed_not_candidate[OF assms(2)])
  moreover have "map fst (map ?g ys) = map fst ys" by (induction ys) auto
  ultimately have "merged E d = map ?g xs @ (VStr s, v) # map ?g ys \<and> map fst (map ?g ys) = map fst ys"
    by simp
  then show ?thesis by (intro exI)
qed

subsection \<open>The argument after the call\<close>

lemma distinct_keys_value: "distinct_keys (VDict d) \<Longrightarrow> (k, v) \<in> set d \<Longrightarrow> distinct_keys v"
  by (auto simp: list_all_iff)

lemma not_iterable_after_call:
  "\<not> is_iterable_except_str_like_cython E m \<Longrightarrow> after_call E deep m = m"
  by (cases m) simp_all

lemma map_items_eq:
  assumes "\<And>item. item \<in> set xs \<Longrightarrow> fst (if c item then f item else (item, item)) = g item"
  shows "map fst (map (\<lambda>item. if c item then f item else (item, item)) xs) = map g xs"
  using assms by (induction xs) simp_all

lemma change_keys_case_after_call:
  "distinct_keys v \<Longrightarrow> fst (change_keys_case E method deep v) = after_call E deep v"
proof (induction E "method" deep v rule: change_keys_case.induct)
  case (3 E "method" deep input_obj)
  let ?d = "merge_loop E (map fst input_obj) input_obj"
  let ?F = "\<lambda>(key, value).
              if deep \<and> is_iterable_except_str_like_cython E value
              then (let (value', r) = change_keys_case E method deep value
                    in ((key, value'), (method_key E method key, r)))
              else ((key, value), (method_key E method key, value))"
  from "3.prems" have dist: "distinct (map fst input_obj)" by simp
  have d: "?d = merged E input_obj" using dist by (rule merge_loop_merged)
  have "fst (?F kv) = (\<lambda>(k, m). (k, if deep then after_call E deep m else m)) kv"
    if kv: "kv \<in> set (merged E input_obj)" for kv
  proof -
    obtain key val where p: "kv = (key, val)" by (cases kv)
    show ?thesis
    proof (cases "deep \<and> is_iterable_except_str_like_cython E val")
      case False
      then show ?thesis unfolding p by (auto simp: not_iterable_after_call)
    next
      case True
      from kv merged_value[of key val E input_obj] obtain k' where "(k', val) \<in> set input_obj"
        unfolding p by blast
      from distinct_keys_value[OF "3.prems" this] have dk: "distinct_keys val" .
      from kv have m: "(key, val) \<in> set ?d" unfolding p d .
      from "3.IH"[OF refl m refl True dk]
      have "fst (change_keys_case E method deep val) = after_call E deep val" .
      then show ?thesis using True unfolding p by (simp add: case_prod_beta)
    qed
  qed
  then have "map fst (map ?F (merged E input_obj))
               = map (\<lambda>(k, m). (k, if deep then after_call E deep m else m)) (merged E input_obj)"
    by simp
  then show ?case unfolding change_keys_case.simps Let_def d by simp
next
  case (4 E "method" deep input_obj)
  have "map fst (map (\<lambda>item. if deep \<and> is_iterable_except_str_like_cython E item
                              then change_keys_case E method deep item else (item, item)) input_obj)
          = map (\<lambda>x. if deep then after_call E deep x else x) input_obj"
  proof (rule map_items_eq)
    fix item assume i: "item \<in> set input_obj"
    show "fst (if deep \<and> is_iterable_except_str_like_cython E item
               then change_keys_case E method deep item else (item, item))
          = (if deep then after_call E deep item else item)"
    proof (cases "deep \<and> is_iterable_except_str_like_cython E item")
      case False
      then show ?thesis by (auto simp: not_iterable_after_call)
    next
      case True
      from i "4.prems" have "distinct_keys item" by (simp add: list_all_iff)
      from "4.IH"[OF i True this] True show ?thesis by simp
    qed
  qed
  then show ?case by (simp add: Let_def)
next
  case (5 E "method" deep input_obj)
  have "map fst (map (\<lambda>item. if deep \<and> is_iterable_except_str_like_cython E item
                              then change_keys_case E method deep item else (item, item)) input_obj)
          = map (\<lambda>x. if deep then after_call E deep x else x) input_obj"
  proof (rule map_items_eq)
    fix item assume i: "item \<in> set input_obj"
    show "fst (if deep \<and> is_iterable_except_str_like_cython E item
               then change_keys_case E method deep item else (item, item))
          = (if deep then after_call E deep item else item)"
    proof (cases "deep \<and> is_iterable_except_str_like_cython E item")
      case False
      then show ?thesis by (auto simp: not_iterable_after_call)
    next
      case True
      from i "5.prems" have "distinct_keys item" by (simp add: list_all_iff)
      from "5.IH"[OF i True this] True show ?thesis by simp
    qed
  qed
  then show ?case by (simp add: Let_def)
next
  case (6 E "method" deep input_obj)
  have "map fst (map (\<lambda>item. if deep \<and> is_iterable_except_str_like_cython E item
                              then change_keys_case E method deep item else (item, item)) input_obj)
          = map (\<lambda>x. if deep then after_call E deep x else x) input_obj"
  proof (rule map_items_eq)
    fix item assume i: "item \<in> set input_obj"
    show "fst (if deep \<and> is_iterable_except_str_like_cython E item
               then change_keys_case E method deep item else (item, item))
          = (if deep then after_call E deep item else item)"
    proof (cases "deep \<and> is_iterable_except_str_like_cython E item")
      case False
      then show ?thesis by (auto simp: not_iterable_after_call)
    next
      case True
      from i "6.prems" have "distinct_keys item" by (simp add: list_all_iff)
      from "6.IH"[OF i True this] True show ?thesis by simp
    qed
  qed
  then show ?case by (simp add: Let_def)
qed simp_all

lemma first_truthy_truthy: "py_bool E x \<Longrightarrow> first_truthy E x xs = x"
  by (cases xs) simp_all

lemma falsy_after_call: "\<not> py_bool E (after_call E deep m) \<Longrightarrow> after_call E deep m = m"
  by (cases m) (simp_all add: merged_def)

lemma map_eq_self: "map f xs = xs \<longleftrightarrow> (\<forall>x \<in> set xs. f x = x)"
  using map_eq_conv[of f xs id] by simp

lemma after_call_fixed:
  "after_call E deep v = v \<longleftrightarrow> merge_keeps E deep v"
proof (induction E deep v rule: after_call.induct)
  case (1 E deep d)
  let ?m = "\<lambda>c cur. first_truthy E cur (prefixed_values d c)"
  let ?rec = "\<lambda>m. if deep then after_call E deep m else m"
  have item: "?rec (?m c cur) = cur \<longleftrightarrow> ?m c cur = cur \<and> (deep \<longrightarrow> merge_keeps E deep cur)"
    if "(c, cur) \<in> set d" for c cur
  proof -
    from that have mem: "(c, ?m c cur) \<in> set (merged E d)" unfolding merged_def by force
    have ih: "after_call E deep (?m c cur) = ?m c cur \<longleftrightarrow> merge_keeps E deep (?m c cur)" if deep
      by (rule "1.IH"[OF mem refl that])
    show ?thesis
    proof
      assume r: "?rec (?m c cur) = cur"
      have m: "?m c cur = cur"
      proof (cases deep)
        case False
        with r show ?thesis by simp
      next
        case True
        with r have a: "after_call E deep (?m c cur) = cur" by simp
        show ?thesis
        proof (cases "py_bool E cur")
          case True
          then show ?thesis by (rule first_truthy_truthy)
        next
          case False
          then have "\<not> py_bool E (after_call E deep (?m c cur))" unfolding a .
          from falsy_after_call[OF this] a show ?thesis by simp
        qed
      qed
      moreover have "merge_keeps E deep cur" if deep
      proof -
        from r that have "after_call E deep (?m c cur) = ?m c cur" unfolding m by simp
        with ih[OF that] show ?thesis unfolding m by simp
      qed
      ultimately show "?m c cur = cur \<and> (deep \<longrightarrow> merge_keeps E deep cur)" by blast
    next
      assume k: "?m c cur = cur \<and> (deep \<longrightarrow> merge_keeps E deep cur)"
      show "?rec (?m c cur) = cur"
      proof (cases deep)
        case False
        with k show ?thesis by simp
      next
        case True
        with k have "merge_keeps E deep (?m c cur)" by simp
        with ih[OF True] have "after_call E deep (?m c cur) = ?m c cur" by simp
        with k True show ?thesis by simp
      qed
    qed
  qed
  have "after_call E deep (VDict d) = VDict (map (\<lambda>(c, cur). (c, ?rec (?m c cur))) d)"
    by (simp add: merged_def comp_def case_prod_beta)
  then have "after_call E deep (VDict d) = VDict d
               \<longleftrightarrow> (\<forall>x \<in> set d. (\<lambda>(c, cur). (c, ?rec (?m c cur))) x = x)"
    by (simp only: pyval.inject map_eq_self)
  also have "\<dots> \<longleftrightarrow> (\<forall>x \<in> set d. (\<lambda>(c, cur). ?m c cur = cur \<and> (deep \<longrightarrow> merge_keeps E deep cur)) x)"
  proof (rule ball_cong[OF refl])
    fix x assume x: "x \<in> set d"
    obtain c cur where p: "x = (c, cur)" by (cases x)
    from x item[of c cur] show "((\<lambda>(c, cur). (c, ?rec (?m c cur))) x = x)
          = ((\<lambda>(c, cur). ?m c cur = cur \<and> (deep \<longrightarrow> merge_keeps E deep cur)) x)"
      unfolding p by simp
  qed
  also have "\<dots> \<longleftrightarrow> merge_keeps E deep (VDict d)"
    by (simp add: list_all_iff)
  finally show ?case .
next
  case (2 E deep xs)
  have "after_call E deep (VList xs) = VList xs
          \<longleftrightarrow> (\<forall>x \<in> set xs. (if deep then after_call E deep x else x) = x)"
    by (simp add: map_eq_self)
  also have "\<dots> \<longleftrightarrow> (deep \<longrightarrow> (\<forall>x \<in> set xs. merge_keeps E deep x))"
    using "2.IH" by auto
  finally show ?case by (simp add: list_all_iff)
next
  case (3 E deep xs)
  have "after_call E deep (VTuple xs) = VTuple xs
          \<longleftrightarrow> (\<forall>x \<in> set xs. (if deep then after_call E deep x else x) = x)"
    by (simp add: map_eq_self)
  also have "\<dots> \<longleftrightarrow> (deep \<longrightarrow> (\<forall>x \<in> set xs. merge_keeps E deep x))"
    using "3.IH" by auto
  finally show ?case by (simp add: list_all_iff)
next
  case (4 E deep xs)
  have "after_call E deep (VSet xs) = VSet xs
          \<longleftrightarrow> (\<forall>x \<in> set xs. (if deep then after_call E deep x else x) = x)"
    by (simp add: map_eq_self)
  also have "\<dots> \<longleftrightarrow> (deep \<longrightarrow> (\<forall>x \<in> set xs. merge_keeps E deep x))"
    using "4.IH" by auto
  finally show ?case by (simp add: list_all_iff)
qed simp_all

lemma change_keys_case_shallow_merged:
  "distinct (map fst d) \<Longrightarrow> fst (change_keys_case E method False (VDict d)) = VDict (merged E d)"
  using change_keys_case_shallow_input[of E "method" d] by (simp only: merge_loop_merged)

subsection \<open>The later item wins\<close>

lemma change_keys_case_last_write:
  assumes dist: "distinct (map fst d)"
    and split: "merged E d = xs @ (k, w) # ys"
    and later: "\<forall>k' \<in> set (map fst ys). method_key E method k' \<noteq> method_key E method k"
  shows "snd (change_keys_case E method deep (VDict d))
           = VDict (build_out (map (\<lambda>(key, val).
                (method_key E method key,
                 if deep \<and> is_iterable_except_str_like_cython E val
                 then snd (change_keys_case E method deep val) else val)) (merged E d)))
         \<and> map_of (build_out (map (\<lambda>(key, val).
                (method_key E method key,
                 if deep \<and> is_iterable_except_str_like_cython E val
                 then snd (change_keys_case E method deep val) else val)) (merged E d)))
              (method_key E method k)
             = Some (if deep \<and> is_iterable_except_str_like_cython E w
                     then snd (change_keys_case E method deep w) else w)"
proof -
  let ?item = "\<lambda>(key, val).
                (method_key E method key,
                 if deep \<and> is_iterable_except_str_like_cython E val
                 then snd (change_keys_case E method deep val) else val)"
  have out: "snd (change_keys_case E method deep (VDict d)) = VDict (build_out (map ?item (merged E d)))"
    using change_keys_case_dict_out[of E "method" deep d] unfolding merge_loop_merged[OF dist] .
  have r: "rev (map ?item (merged E d)) = rev (map ?item ys) @ ?item (k, w) # rev (map ?item xs)"
    unfolding split by simp
  have "method_key E method k \<notin> fst ` set (rev (map ?item ys))"
  proof
    assume "method_key E method k \<in> fst ` set (rev (map ?item ys))"
    then obtain kv where kv: "kv \<in> set ys" "method_key E method k = fst (?item kv)" by auto
    from kv(2) have "method_key E method (fst kv) = method_key E method k"
      by (cases kv) simp
    moreover from kv(1) have "fst kv \<in> set (map fst ys)" by simp
    ultimately show False using later by blast
  qed
  then have "map_of (rev (map ?item ys)) (method_key E method k) = None"
    by (rule iffD2[OF map_of_eq_None_iff])
  then have "map_of (rev (map ?item (merged E d))) (method_key E method k)
               = map_of (?item (k, w) # rev (map ?item xs)) (method_key E method k)"
    unfolding r map_of_append by (simp add: map_add_def)
  also have "\<dots> = Some (if deep \<and> is_iterable_except_str_like_cython E w
                           then snd (change_keys_case E method deep w) else w)"
    by simp
  finally show ?thesis using out unfolding map_of_build_out by blast
qed

subsection \<open>The result of \<open>change_keys_case\<close>, rebuilt\<close>

lemma dict_set_distinct: "distinct (map fst d) \<Longrightarrow> distinct (map fst (dict_set d k v))"
proof (induction d)
  case Nil
  show ?case by simp
next
  case (Cons kv d)
  obtain a w where kv: "kv = (a, w)" by (cases kv)
  show ?case
  proof (cases "a = k")
    case True
    with Cons.prems show ?thesis unfolding kv by simp
  next
    case False
    have "fst ` set (dict_set d k v) = insert k (fst ` set d)"
      using map_of_dict_set[of d k v] dom_map_of_conv_image_fst[of "dict_set d k v"]
        dom_map_of_conv_image_fst[of d] by simp
    with Cons False show ?thesis unfolding kv by simp
  qed
qed

lemma foldl_dict_set_distinct:
  "distinct (map fst acc) \<Longrightarrow>
     distinct (map fst (foldl (\<lambda>out (new_key, r). dict_set out new_key r) acc items))"
proof (induction items arbitrary: acc)
  case Nil
  then show ?case by simp
next
  case (Cons x items)
  obtain k v where x: "x = (k, v)" by (cases x)
  from Cons.IH[OF dict_set_distinct[OF Cons.prems, of k v]] show ?case unfolding x by simp
qed

lemma build_out_distinct: "distinct (map fst (build_out items))"
  unfolding build_out_def by (rule foldl_dict_set_distinct) simp

lemma build_out_keys: "set (map fst (build_out items)) = set (map fst items)"
proof -
  have "fst ` set (build_out items) = fst ` set (rev items)"
    using arg_cong[OF map_of_build_out[of items], of dom] by (simp only: dom_map_of_conv_image_fst)
  then show ?thesis by simp
qed

lemma not_iterable_rebuilt:
  "\<not> is_iterable_except_str_like_cython E x \<Longrightarrow> rebuilt E f deep x x"
  by (cases x) simp_all

lemma map_snd_items:
  "map snd (map (\<lambda>item. if c item then g item else (item, item)) xs)
     = map (\<lambda>item. if c item then snd (g item) else item) xs"
  by (induction xs) simp_all

lemma change_keys_case_rebuilt:
  "distinct_keys v \<Longrightarrow> \<not> string_like v \<Longrightarrow>
     rebuilt E method deep v (snd (change_keys_case E method deep v))"
proof (induction E "method" deep v rule: change_keys_case.induct)
  case (1 E "method" deep s)
  then show ?case by (simp add: string_like_def)
next
  case (2 E "method" deep b)
  then show ?case by (simp add: string_like_def)
next
  case (3 E "method" deep input_obj)
  let ?res = "\<lambda>val. if deep \<and> is_iterable_except_str_like_cython E val
                     then snd (change_keys_case E method deep val) else val"
  let ?items = "map (\<lambda>(key, val). (method_key E method key, ?res val)) (merged E input_obj)"
  from "3.prems" have dist: "distinct (map fst input_obj)" by simp
  have d: "merge_loop E (map fst input_obj) input_obj = merged E input_obj"
    using dist by (rule merge_loop_merged)
  have out: "snd (change_keys_case E method deep (VDict input_obj)) = VDict (build_out ?items)"
    using change_keys_case_dict_out[of E "method" deep input_obj] unfolding d .
  have items: "?items = map (\<lambda>(k, w). (k, ?res w)) (rewritten E method input_obj)"
    unfolding rewritten_def by (simp add: comp_def case_prod_beta)
  have keys: "set (map fst (build_out ?items)) = set (map fst (rewritten E method input_obj))"
    unfolding build_out_keys items by (simp add: comp_def case_prod_beta)
  have item: "if deep then rebuilt E method deep x (?res x) else ?res x = x"
    if "(k, x) \<in> set (merged E input_obj)" for k x
  proof (cases "deep \<and> is_iterable_except_str_like_cython E x")
    case False
    then show ?thesis by (auto simp: not_iterable_rebuilt)
  next
    case True
    from that merged_value[of k x E input_obj] obtain k' where "(k', x) \<in> set input_obj" by blast
    from distinct_keys_value[OF "3.prems"(1) this] have dk: "distinct_keys x" .
    from True have ns: "\<not> string_like x" using iterable_not_string_like[of E x] by blast
    from that have m: "(k, x) \<in> set (merge_loop E (map fst input_obj) input_obj)" unfolding d .
    from "3.IH"[OF refl m refl True dk ns] True show ?thesis by simp
  qed
  have entry: "case map_of (rev (rewritten E method input_obj)) nk of
                 None \<Rightarrow> False
               | Some x \<Rightarrow> if deep then rebuilt E method deep x y else y = x"
    if "(nk, y) \<in> set (build_out ?items)" for nk y
  proof -
    from that build_out_distinct[of ?items] have "map_of (build_out ?items) nk = Some y" by simp
    then have "map_of (rev ?items) nk = Some y" unfolding map_of_build_out .
    then have "map_of (map (\<lambda>(k, w). (k, ?res w)) (rev (rewritten E method input_obj))) nk = Some y"
      unfolding items rev_map .
    then have "map_option ?res (map_of (rev (rewritten E method input_obj)) nk) = Some y"
      unfolding map_of_map by simp
    then obtain x where x: "map_of (rev (rewritten E method input_obj)) nk = Some x" "y = ?res x"
      by auto
    from map_of_SomeD[OF x(1)] obtain k where "(k, x) \<in> set (merged E input_obj)"
      unfolding rewritten_def by auto
    from item[OF this] show ?thesis unfolding x(1) x(2) by simp
  qed
  have "list_all (\<lambda>(nk, y). case map_of (rev (rewritten E method input_obj)) nk of
                               None \<Rightarrow> False
                             | Some x \<Rightarrow> if deep then rebuilt E method deep x y else y = x)
          (build_out ?items)"
    unfolding list_all_iff
  proof
    fix e assume e: "e \<in> set (build_out ?items)"
    obtain nk y where p: "e = (nk, y)" by (cases e)
    from entry[of nk y] e
    show "(\<lambda>(nk, y). case map_of (rev (rewritten E method input_obj)) nk of
                               None \<Rightarrow> False
                             | Some x \<Rightarrow> if deep then rebuilt E method deep x y else y = x) e"
      unfolding p prod.case by blast
  qed
  with build_out_distinct[of ?items] keys show ?case unfolding out by simp
next
  case (4 E "method" deep input_obj)
  let ?res = "\<lambda>val. if deep \<and> is_iterable_except_str_like_cython E val
                     then snd (change_keys_case E method deep val) else val"
  have item: "if deep then rebuilt E method deep x (?res x) else ?res x = x"
    if i: "x \<in> set input_obj" for x
  proof (cases "deep \<and> is_iterable_except_str_like_cython E x")
    case False
    then show ?thesis by (auto simp: not_iterable_rebuilt)
  next
    case True
    from i "4.prems" have dk: "distinct_keys x" by (simp add: list_all_iff)
    from True have ns: "\<not> string_like x" using iterable_not_string_like[of E x] by blast
    from "4.IH"[OF i True dk ns] True show ?thesis by simp
  qed
  have r: "snd (change_keys_case E method deep (VList input_obj)) = VList (map ?res input_obj)"
    by (simp only: change_keys_case.simps Let_def snd_conv map_snd_items)
  have "list_all2 (\<lambda>x y. if deep then rebuilt E method deep x y else y = x) input_obj (map ?res input_obj)"
    unfolding list_all2_map2 by (rule list_all2_same[THEN iffD2]) (use item in blast)
  then show ?case unfolding r by simp
next
  case (5 E "method" deep input_obj)
  let ?res = "\<lambda>val. if deep \<and> is_iterable_except_str_like_cython E val
                     then snd (change_keys_case E method deep val) else val"
  have item: "if deep then rebuilt E method deep x (?res x) else ?res x = x"
    if i: "x \<in> set input_obj" for x
  proof (cases "deep \<and> is_iterable_except_str_like_cython E x")
    case False
    then show ?thesis by (auto simp: not_iterable_rebuilt)
  next
    case True
    from i "5.prems" have dk: "distinct_keys x" by (simp add: list_all_iff)
    from True have ns: "\<not> string_like x" using iterable_not_string_like[of E x] by blast
    from "5.IH"[OF i True dk ns] True show ?thesis by simp
  qed
  have r: "snd (change_keys_case E method deep (VTuple input_obj)) = VTuple (map ?res input_obj)"
    by (simp only: change_keys_case.simps Let_def snd_conv map_snd_items)
  have "list_all2 (\<lambda>x y. if deep then rebuilt E method deep x y else y = x) input_obj (map ?res input_obj)"
    unfolding list_all2_map2 by (rule list_all2_same[THEN iffD2]) (use item in blast)
  then show ?case unfolding r by simp
next
  case (6 E "method" deep input_obj)
  let ?res = "\<lambda>val. if deep \<and> is_iterable_except_str_like_cython E val
                     then snd (change_keys_case E method deep val) else val"
  have item: "if deep then rebuilt E method deep x (?res x) else ?res x = x"
    if i: "x \<in> set input_obj" for x
  proof (cases "deep \<and> is_iterable_except_str_like_cython E x")
    case False
    then show ?thesis by (auto simp: not_iterable_rebuilt)
  next
    case True
    from i "6.prems" have dk: "distinct_keys x" by (simp add: list_all_iff)
    from True have ns: "\<not> string_like x" using iterable_not_string_like[of E x] by blast
    from "6.IH"[OF i True dk ns] True show ?thesis by simp
  qed
  have r: "snd (change_keys_case E method deep (VSet input_obj)) = VSet (remdups (map ?res input_obj))"
    by (simp only: change_keys_case.simps Let_def snd_conv map_snd_items)
  have a: "list_all (\<lambda>x. list_ex (\<lambda>y. if deep then rebuilt E method deep x y else y = x)
                              (remdups (map ?res input_obj))) input_obj"
    unfolding list_all_iff list_ex_iff
  proof
    fix x assume x: "x \<in> set input_obj"
    then have "?res x \<in> set (remdups (map ?res input_obj))" by simp
    with item[OF x]
    show "\<exists>y \<in> set (remdups (map ?res input_obj)). if deep then rebuilt E method deep x y else y = x"
      by blast
  qed
  have b: "list_all (\<lambda>y. list_ex (\<lambda>x. if deep then rebuilt E method deep x y else y = x) input_obj)
             (remdups (map ?res input_obj))"
    unfolding list_all_iff list_ex_iff
  proof
    fix y assume "y \<in> set (remdups (map ?res input_obj))"
    then obtain x where x: "x \<in> set input_obj" "y = ?res x" by auto
    from item[OF x(1)]
    show "\<exists>x \<in> set input_obj. if deep then rebuilt E method deep x y else y = x"
      unfolding x(2) using x(1) by blast
  qed
  from a b show ?case unfolding r by simp
next
  case (7 E "method" deep ob)
  show ?case by simp
qed

lemma change_keys_case_kind:
  "\<not> string_like v \<Longrightarrow> kind_of (snd (change_keys_case E method deep v)) = kind_of v"
  by (cases v) (simp_all add: string_like_def Let_def)

subsection \<open>The result of \<open>recursive_sort_keys_cython\<close>, rebuilt\<close>

lemma insert_item_length: "insert_item lt x ys = Inr r \<Longrightarrow> length r = Suc (length ys)"
proof (induction ys arbitrary: r)
  case Nil
  then show ?case by auto
next
  case (Cons y ys)
  show ?case
  proof (cases "py_lt lt (fst x) (fst y)")
    case None
    with Cons.prems show ?thesis by simp
  next
    case (Some b)
    show ?thesis
    proof (cases b)
      case True
      with Some Cons.prems have "r = x # y # ys" by simp
      then show ?thesis by simp
    next
      case False
      with Some Cons.prems obtain r' where r': "insert_item lt x ys = Inr r'" "r = y # r'"
        by (cases "insert_item lt x ys") auto
      from Cons.IH[OF r'(1)] r'(2) show ?thesis by simp
    qed
  qed
qed

lemma py_sorted_length: "py_sorted lt xs = Inr s \<Longrightarrow> length s = length xs"
proof (induction xs arbitrary: s)
  case Nil
  then show ?case by simp
next
  case (Cons x xs)
  then obtain s' where s': "py_sorted lt xs = Inr s'" "insert_item lt x s' = Inr s"
    by (cases "py_sorted lt xs") auto
  from Cons.IH[OF s'(1)] insert_item_length[OF s'(2)] show ?case by simp
qed

lemma py_sorted_distinct:
  assumes "py_sorted lt xs = Inr s" "distinct (map fst xs)"
  shows "distinct (map fst s)"
proof (rule card_distinct)
  have "set (map fst s) = set (map fst xs)" using py_sorted_set[OF assms(1)] by simp
  then have "card (set (map fst s)) = card (set (map fst xs))" by simp
  also have "\<dots> = length (map fst xs)" using assms(2) by (rule distinct_card)
  also have "\<dots> = length (map fst s)" using py_sorted_length[OF assms(1)] by simp
  finally show "card (set (map fst s)) = length (map fst s)" .
qed

lemma list_all2_image:
  "list_all2 P xs ys \<Longrightarrow> x \<in> set xs \<Longrightarrow> \<exists>y \<in> set ys. P x y"
  by (induction rule: list_all2_induct) auto

lemma sort_rebuilt_self: "kind_of x \<noteq> KDict \<Longrightarrow> sort_rebuilt True x x"
  by (cases x) simp_all

lemma sorted_items_rebuilt:
  assumes m: "map_result (\<lambda>item. case item of
              VDict d \<Rightarrow> (case recursive_sort_keys_cython lt d of Inl e \<Rightarrow> Inl e | Inr r \<Rightarrow> Inr (VDict r))
            | _ \<Rightarrow> Inr item) items = Inr new_list"
    and ih: "\<And>d r. VDict d \<in> set items \<Longrightarrow> recursive_sort_keys_cython lt d = Inr r \<Longrightarrow>
               sort_rebuilt True (VDict d) (VDict r)"
  shows "list_all2 (\<lambda>x y. sort_rebuilt True x y) items new_list"
proof -
  let ?g = "\<lambda>item. case item of
              VDict d \<Rightarrow> (case recursive_sort_keys_cython lt d of Inl e \<Rightarrow> Inl e | Inr r \<Rightarrow> Inr (VDict r))
            | _ \<Rightarrow> Inr item"
  have "sort_rebuilt True x y" if "x \<in> set items" "?g x = Inr y" for x y
  proof (cases x)
    case (VDict d)
    with that(2) obtain r where r: "recursive_sort_keys_cython lt d = Inr r" "y = VDict r"
      by (cases "recursive_sort_keys_cython lt d") auto
    from ih[OF that(1)[unfolded VDict] r(1)] show ?thesis unfolding VDict r(2) .
  qed (use that(2) in \<open>auto simp: sort_rebuilt_self\<close>)
  with map_result_rel[OF m] show ?thesis
    by (rule list.rel_mono_strong)
qed

lemma sorted_value_rebuilt:
  assumes f: "(case val of
              VDict d \<Rightarrow> (case recursive_sort_keys_cython lt d of Inl e \<Rightarrow> Inl e | Inr r \<Rightarrow> Inr (key, VDict r))
            | VList items \<Rightarrow>
                (case map_result (\<lambda>item. case item of
                          VDict d \<Rightarrow> (case recursive_sort_keys_cython lt d of Inl e \<Rightarrow> Inl e | Inr r \<Rightarrow> Inr (VDict r))
                        | _ \<Rightarrow> Inr item) items of
                   Inl e \<Rightarrow> Inl e | Inr new_list \<Rightarrow> Inr (key, VList new_list))
            | VTuple items \<Rightarrow>
                (case map_result (\<lambda>item. case item of
                          VDict d \<Rightarrow> (case recursive_sort_keys_cython lt d of Inl e \<Rightarrow> Inl e | Inr r \<Rightarrow> Inr (VDict r))
                        | _ \<Rightarrow> Inr item) items of
                   Inl e \<Rightarrow> Inl e | Inr new_list \<Rightarrow> Inr (key, VList new_list))
            | _ \<Rightarrow> Inr (key, val)) = Inr (k, w)"
    and dk: "distinct_keys val"
    and ih: "\<And>d r b. size (VDict d) \<le> size val \<Longrightarrow> distinct_keys (VDict d) \<Longrightarrow>
               recursive_sort_keys_cython lt d = Inr r \<Longrightarrow> sort_rebuilt b (VDict d) (VDict r)"
  shows "k = key \<and> sort_rebuilt False val w"
proof (cases val)
  case (VDict d)
  with f obtain r where r: "recursive_sort_keys_cython lt d = Inr r" "k = key" "w = VDict r"
    by (cases "recursive_sort_keys_cython lt d") auto
  from ih[OF _ dk[unfolded VDict] r(1), of False] r(2) show ?thesis unfolding VDict r(3) by simp
next
  case (VList items)
  with f obtain new_list where n: "map_result (\<lambda>item. case item of
              VDict d \<Rightarrow> (case recursive_sort_keys_cython lt d of Inl e \<Rightarrow> Inl e | Inr r \<Rightarrow> Inr (VDict r))
            | _ \<Rightarrow> Inr item) items = Inr new_list" "k = key" "w = VList new_list"
    by (auto split: sum.splits)
  have "sort_rebuilt True (VDict d) (VDict r)"
    if "VDict d \<in> set items" "recursive_sort_keys_cython lt d = Inr r" for d r
  proof -
    from size_list_item[OF that(1)] have "size (VDict d) \<le> size val" unfolding VList by simp
    moreover have "distinct_keys (VDict d)"
    proof -
      from dk have "\<forall>x \<in> set items. distinct_keys x" unfolding VList by (simp add: list_all_iff)
      with that(1) show ?thesis by blast
    qed
    ultimately show ?thesis using that(2) by (rule ih)
  qed
  from sorted_items_rebuilt[OF n(1) this] n(2) show ?thesis unfolding VList n(3) by simp
next
  case (VTuple items)
  with f obtain new_list where n: "map_result (\<lambda>item. case item of
              VDict d \<Rightarrow> (case recursive_sort_keys_cython lt d of Inl e \<Rightarrow> Inl e | Inr r \<Rightarrow> Inr (VDict r))
            | _ \<Rightarrow> Inr item) items = Inr new_list" "k = key" "w = VList new_list"
    by (auto split: sum.splits)
  have "sort_rebuilt True (VDict d) (VDict r)"
    if "VDict d \<in> set items" "recursive_sort_keys_cython lt d = Inr r" for d r
  proof -
    from size_list_item[OF that(1)] have "size (VDict d) \<le> size val" unfolding VTuple by simp
    moreover have "distinct_keys (VDict d)"
    proof -
      from dk have "\<forall>x \<in> set items. distinct_keys x" unfolding VTuple by (simp add: list_all_iff)
      with that(1) show ?thesis by blast
    qed
    ultimately show ?thesis using that(2) by (rule ih)
  qed
  from sorted_items_rebuilt[OF n(1) this] n(2) show ?thesis unfolding VTuple n(3) by simp
qed (use f in auto)

lemma recursive_sort_keys_cython_rebuilt:
  "distinct_keys (VDict d) \<Longrightarrow> recursive_sort_keys_cython lt d = Inr r \<Longrightarrow>
     sort_rebuilt b (VDict d) (VDict r)"
proof (induction "size (VDict d)" arbitrary: d r b rule: less_induct)
  case less
  let ?F = "\<lambda>(key, value).
              case value of
                VDict d \<Rightarrow> (case recursive_sort_keys_cython lt d of Inl e \<Rightarrow> Inl e | Inr r \<Rightarrow> Inr (key, VDict r))
              | VList items \<Rightarrow>
                  (case map_result (\<lambda>item. case item of
                            VDict d \<Rightarrow> (case recursive_sort_keys_cython lt d of Inl e \<Rightarrow> Inl e | Inr r \<Rightarrow> Inr (VDict r))
                          | _ \<Rightarrow> Inr item) items of
                     Inl e \<Rightarrow> Inl e | Inr new_list \<Rightarrow> Inr (key, VList new_list))
              | VTuple items \<Rightarrow>
                  (case map_result (\<lambda>item. case item of
                            VDict d \<Rightarrow> (case recursive_sort_keys_cython lt d of Inl e \<Rightarrow> Inl e | Inr r \<Rightarrow> Inr (VDict r))
                          | _ \<Rightarrow> Inr item) items of
                     Inl e \<Rightarrow> Inl e | Inr new_list \<Rightarrow> Inr (key, VList new_list))
              | _ \<Rightarrow> Inr (key, value)"
  from less.prems(1) have dist: "distinct (map fst d)" by simp
  from less.prems(2) obtain sorted_items where s: "py_sorted lt d = Inr sorted_items"
    by (subst (asm) recursive_sort_keys_cython.simps) (auto split: sum.splits)
  with less.prems(2) obtain assigned where a: "map_result ?F sorted_items = Inr assigned" "r = build_out assigned"
    by (subst (asm) recursive_sort_keys_cython.simps) (auto split: sum.splits)
  note rel = map_result_rel[OF a(1)]
  have step: "fst y = fst x \<and> sort_rebuilt False (snd x) (snd y)"
    if "x \<in> set sorted_items" "?F x = Inr y" for x y
  proof -
    obtain key val where p: "x = (key, val)" by (cases x)
    obtain k w where q: "y = (k, w)" by (cases y)
    from that(1) have mem: "(key, val) \<in> set d" using py_sorted_set[OF s] unfolding p by simp
    from distinct_keys_value[OF less.prems(1) mem] have dk: "distinct_keys val" .
    have "k = key \<and> sort_rebuilt False val w"
    proof (rule sorted_value_rebuilt[OF that(2)[unfolded p q prod.case] dk])
      fix d' r' b'
      assume "size (VDict d') \<le> size val" "distinct_keys (VDict d')"
        "recursive_sort_keys_cython lt d' = Inr r'"
      moreover from size_dict_value[OF mem] have "size val < size (VDict d)" .
      ultimately show "sort_rebuilt b' (VDict d') (VDict r')"
        using less.hyps[of d' r' b'] by simp
    qed
    then show ?thesis unfolding p q by simp
  qed
  have keys: "map fst assigned = map fst sorted_items"
  proof -
    from rel have "list_all2 (\<lambda>x y. fst y = fst x) sorted_items assigned"
      by (rule list.rel_mono_strong) (use step in blast)
    then show ?thesis by (induction rule: list_all2_induct) simp_all
  qed
  have da: "distinct (map fst assigned)"
    unfolding keys using s dist by (rule py_sorted_distinct)
  have k1: "distinct (map fst r)" unfolding a(2) by (rule build_out_distinct)
  have k2: "set (map fst r) = set (map fst d)"
    unfolding a(2) build_out_keys keys using py_sorted_set[OF s] by simp
  have k3: "case map_of r k of None \<Rightarrow> False | Some w \<Rightarrow> sort_rebuilt False v w"
    if "(k, v) \<in> set d" for k v
  proof -
    from that have "(k, v) \<in> set sorted_items" using py_sorted_set[OF s] by simp
    from list_all2_image[OF rel this] obtain y where y: "y \<in> set assigned" "?F (k, v) = Inr y"
      by blast
    from step[OF \<open>(k, v) \<in> set sorted_items\<close> y(2)]
    have f: "fst y = k" "sort_rebuilt False v (snd y)" by simp_all
    from y(1) f(1) have "(k, snd y) \<in> set (rev assigned)" by (cases y) auto
    moreover have "distinct (map fst (rev assigned))" using da by (simp add: rev_map[symmetric])
    ultimately have "map_of (rev assigned) k = Some (snd y)" by (rule map_of_is_SomeI[rotated])
    then have "map_of r k = Some (snd y)" unfolding a(2) map_of_build_out .
    with f(2) show ?thesis by simp
  qed
  have "list_all (\<lambda>(k, v). case map_of r k of None \<Rightarrow> False | Some w \<Rightarrow> sort_rebuilt False v w) d"
    unfolding list_all_iff
  proof
    fix e assume e: "e \<in> set d"
    obtain k v where p: "e = (k, v)" by (cases e)
    from k3[of k v] e
    show "(\<lambda>(k, v). case map_of r k of None \<Rightarrow> False | Some w \<Rightarrow> sort_rebuilt False v w) e"
      unfolding p prod.case by blast
  qed
  with k1 k2 show ?case by simp
qed

lemma sort_rebuilt_kind:
  "sort_rebuilt False v w \<Longrightarrow> kind_of w = kind_after_sort (kind_of v)"
  by (cases v; cases w) (simp_all add: kind_after_sort_def)

subsection \<open>The checksum\<close>

lemma checksum_loop_zeros:
  "checksum_loop uni (replicate 9 48) 0 0 = Inr 0"
  by (simp add: checksum_loop.simps py_int_char_def numeral_nat nth_Cons')

section \<open>The claims of the specification\<close>

text \<open>
  Claim C1. The spec has \<open>isValidNationalId("")\<close> return false. The native function has
  no test for the empty string: the digit loop runs zero times, the padding gives
  nine zeros, the weighted sum is 0, and the function returns true.
\<close>

theorem is_valid_israeli_id_empty:
  "is_valid_israeli_id_cython uni [] = Inr True"
  by (simp add: is_valid_israeli_id_cython_def zfill_def checksum_loop_zeros)

text \<open>
  Claim C2. The spec has \<open>isHex\<close> return a boolean for every text, and false for a
  text with a non-ASCII character. \<open>is_hex_cython\<close> encodes the text as ASCII before
  it looks at the characters, and for the one-character text U+00E9 the encoding
  raises \<open>UnicodeEncodeError\<close>: no boolean is returned. (On ASCII text the function does
  return whether the text is non-empty and all hex digits: \<open>is_hex_cython_ascii\<close>.)
\<close>

theorem is_hex_cython_raises_on_e_acute:
  "is_hex_cython [233] = Inl UnicodeEncodeError"
  by (simp add: is_hex_cython_def encode_ascii_def)

text \<open>
  Claim C3, as stated, fails in both directions. The text \<open>zz\<close> has characters outside
  \<open>[0-9a-fA-F]\<close>, and \<open>from_hex_cython\<close> returns the one-character text U+0000 for it:
  \<open>_hex_char_to_nibble\<close> gives 0 for any other character and nothing checks the
  characters. The text \<open>ff\<close> is well-formed hex, and \<open>from_hex_cython\<close> raises for it:
  the byte 0xFF is not UTF-8, and the function decodes the bytes to a \<open>str\<close>.
\<close>

theorem from_hex_claim_counterexample:
  "\<not> well_formed_hex (lit ''zz'') \<and> from_hex_cython (lit ''zz'') = Inr [0]
   \<and> well_formed_hex (lit ''ff'') \<and> from_hex_cython (lit ''ff'') = Inl UnicodeDecodeError"
  by (simp add: well_formed_hex_def hex_digit_cp_def lit_def from_hex_cython_def
        encode_ascii_def hex_to_bytes_def decode_utf8_def hex_char_to_nibble_def dec_cons_def)

text \<open>
  Claim C3, amended. \<open>from_hex_cython\<close> raises \<open>UnicodeEncodeError\<close> for every text with
  a non-ASCII character and \<open>ValueError\<close> for every ASCII text of odd length. For an
  ASCII text of even length, and so for every well-formed hex text, the result is the
  strict UTF-8 decoding of the bytes that the character pairs denote (a character
  outside \<open>[0-9a-fA-F]\<close> counts as the nibble 0); the only error then is the
  \<open>UnicodeDecodeError\<close> of bytes that are not UTF-8.
\<close>

theorem from_hex_cython_errors:
  "(\<not> is_ascii_str s \<longrightarrow> from_hex_cython s = Inl UnicodeEncodeError)
   \<and> (is_ascii_str s \<and> odd (length s) \<longrightarrow>
        from_hex_cython s = Inl (ValueError ''Hex string must have even length''))
   \<and> (is_ascii_str s \<and> even (length s) \<longrightarrow>
        from_hex_cython s = utf8_decode (hex_pairs s)
        \<and> (\<forall>e. from_hex_cython s = Inl e \<longrightarrow> e = UnicodeDecodeError))
   \<and> (well_formed_hex s \<longrightarrow> from_hex_cython s = utf8_decode (hex_pairs s))"
  using from_hex_cython_non_ascii[of s] from_hex_cython_odd_ascii[of s]
    from_hex_cython_even_ascii[of s] well_formed_hex_ascii[of s] utf8_decode_error[of "hex_pairs s"]
  by (auto simp: well_formed_hex_def)

text \<open>
  Claim C3, amended, at four texts: a non-ASCII text, an odd-length text, the fixture
  \<open>6162\<close> of the spec, and the UTF-8 form of U+00E9.
\<close>

theorem from_hex_cython_errors_witness:
  "from_hex_cython [233, 233] = Inl UnicodeEncodeError
   \<and> from_hex_cython (lit ''abc'') = Inl (ValueError ''Hex string must have even length'')
   \<and> from_hex_cython (lit ''6162'') = Inr (lit ''ab'')
   \<and> from_hex_cython (lit ''c3a9'') = Inr [233]"
proof -
  have a: "\<not> is_ascii_str [233, 233]" by (simp add: is_ascii_str_def)
  have b: "is_ascii_str (lit ''abc'') \<and> odd (length (lit ''abc''))"
    by (simp add: is_ascii_str_def lit_def)
  have c: "is_ascii_str (lit ''6162'') \<and> even (length (lit ''6162''))"
    by (simp add: is_ascii_str_def lit_def)
  have d: "well_formed_hex (lit ''c3a9'')"
    by (simp add: well_formed_hex_def hex_digit_cp_def lit_def)
  have 1: "from_hex_cython [233, 233] = Inl UnicodeEncodeError"
    using from_hex_cython_errors[of "[233, 233]"] a by blast
  have 2: "from_hex_cython (lit ''abc'') = Inl (ValueError ''Hex string must have even length'')"
    using from_hex_cython_errors[of "lit ''abc''"] b by blast
  have "from_hex_cython (lit ''6162'') = utf8_decode (hex_pairs (lit ''6162''))"
    using from_hex_cython_errors[of "lit ''6162''"] c by blast
  also have "\<dots> = Inr (lit ''ab'')"
    by (simp add: lit_def hex_val_def dec_cons_def)
  finally have 3: "from_hex_cython (lit ''6162'') = Inr (lit ''ab'')" .
  have "from_hex_cython (lit ''c3a9'') = utf8_decode (hex_pairs (lit ''c3a9''))"
    using from_hex_cython_errors[of "lit ''c3a9''"] d by blast
  also have "\<dots> = Inr [233]"
    by (simp add: lit_def hex_val_def dec_cons_def is_cont_def)
  finally have 4: "from_hex_cython (lit ''c3a9'') = Inr [233]" .
  from 1 2 3 4 show ?thesis by blast
qed

text \<open>
  Claim C9. For every byte buffer \<open>B\<close>, \<open>_hex_to_bytes\<close> applied to the output of
  \<open>_bytes_to_hex\<close> (two characters per byte) gives \<open>B\<close> back. On text, for every \<open>s\<close>
  that has a UTF-8 encoding, \<open>to_hex_cython\<close> returns the hex text of that encoding and
  \<open>from_hex_cython\<close> returns \<open>s\<close> for it.
\<close>

theorem hex_round_trip:
  "hex_to_bytes (bytes_to_hex B) (length (bytes_to_hex B)) = B
   \<and> length (bytes_to_hex B) = 2 * length B
   \<and> (encode_utf8 s = Inr bs \<longrightarrow>
        to_hex_cython s = Inr (map unat (bytes_to_hex bs))
        \<and> from_hex_cython (map unat (bytes_to_hex bs)) = Inr s)"
  using hex_to_bytes_bytes_to_hex[of B] to_hex_cython_encodable[of s bs]
    from_hex_cython_of_hex[of bs] decode_utf8_encode_utf8[of s bs]
  by (simp add: length_bytes_to_hex)

text \<open>
  Claim C9 at the buffer \<open>61 ff\<close> and at the text \<open>ab\<close>, the fixture of the spec.
\<close>

theorem hex_round_trip_witness:
  "hex_to_bytes (bytes_to_hex [0x61, 0xFF]) (length (bytes_to_hex [0x61, 0xFF])) = [0x61, 0xFF]
   \<and> to_hex_cython (lit ''ab'') = Inr (lit ''6162'')
   \<and> from_hex_cython (lit ''6162'') = Inr (lit ''ab'')"
proof -
  have e: "encode_utf8 (lit ''ab'') = Inr [0x61, 0x62]"
    by (simp add: lit_def utf8_encode_cp_def)
  have h: "map unat (bytes_to_hex [0x61, 0x62]) = lit ''6162''"
    by (simp add: lit_def HEX_CHARS_def blit_def drop_bit_eq_div)
  from hex_round_trip[of "[0x61, 0xFF]" "lit ''ab''" "[0x61, 0x62]"] e
  show ?thesis unfolding h by blast
qed

text \<open>
  Claim C7, as stated, fails on a text whose dash-stripped length is 32 and whose
  first twelve characters are hex digits, when a later character is not ASCII:
  \<open>uuidv7_to_datetime_cython\<close> encodes the whole stripped text as ASCII before it
  parses, and raises \<open>UnicodeEncodeError\<close> instead of returning a timestamp.
\<close>

theorem uuidv7_to_datetime_claim_counterexample:
  "lit ''0123456789ab'' @ [233,233,233,233,233,233,233,233,233,233,233,233,233,233,233,233,233,233,233,233] \<noteq> []
   \<and> length (filter (\<lambda>c. c \<noteq> 45)
        (lit ''0123456789ab'' @ [233,233,233,233,233,233,233,233,233,233,233,233,233,233,233,233,233,233,233,233])) = 32
   \<and> uuidv7_to_datetime_cython (Inr :: 64 word \<Rightarrow> py_error + 64 word)
        (lit ''0123456789ab'' @ [233,233,233,233,233,233,233,233,233,233,233,233,233,233,233,233,233,233,233,233])
      = Inl UnicodeEncodeError"
  by (simp add: lit_def uuidv7_to_datetime_cython_def encode_ascii_def)

text \<open>
  Claim C7, amended. For the empty text the result is \<open>None\<close>, not an error. For a
  non-empty text whose dash-stripped length is not 32 the function raises
  \<open>ValueError\<close>. For a non-empty text of stripped length 32 it raises
  \<open>UnicodeEncodeError\<close> when a character is not ASCII; otherwise the first twelve
  characters are read as a big-endian unsigned 48-bit number (a character that is no
  hex digit counting as 0) and the result is what the conversion \<open>fromtimestamp\<close>
  gives for that number of milliseconds, its error included.
\<close>

theorem uuidv7_to_datetime_cython_cases:
  "uuidv7_to_datetime_cython f [] = Inr None
   \<and> (uuid \<noteq> [] \<and> length (filter (\<lambda>c. c \<noteq> 45) uuid) \<noteq> 32 \<longrightarrow>
        uuidv7_to_datetime_cython f uuid = Inl (ValueError ''Invalid UUID string length''))
   \<and> (uuid \<noteq> [] \<and> length (filter (\<lambda>c. c \<noteq> 45) uuid) = 32
        \<and> \<not> is_ascii_str (filter (\<lambda>c. c \<noteq> 45) uuid) \<longrightarrow>
        uuidv7_to_datetime_cython f uuid = Inl UnicodeEncodeError)
   \<and> (uuid \<noteq> [] \<and> length (filter (\<lambda>c. c \<noteq> 45) uuid) = 32
        \<and> is_ascii_str (filter (\<lambda>c. c \<noteq> 45) uuid) \<longrightarrow>
        hex_value (take 12 (filter (\<lambda>c. c \<noteq> 45) uuid)) < 2 ^ 48
        \<and> uuidv7_to_datetime_cython f uuid =
            (case f (of_nat (hex_value (take 12 (filter (\<lambda>c. c \<noteq> 45) uuid)))) of
               Inl e \<Rightarrow> Inl e
             | Inr dt \<Rightarrow> Inr (Some dt)))"
proof -
  let ?clean = "filter (\<lambda>c. c \<noteq> 45) uuid"
  have 1: "uuidv7_to_datetime_cython f [] = Inr None"
    by (simp add: uuidv7_to_datetime_cython_def)
  have 2: "uuidv7_to_datetime_cython f uuid = Inl (ValueError ''Invalid UUID string length'')"
    if "uuid \<noteq> []" "length ?clean \<noteq> 32"
    using that by (simp add: uuidv7_to_datetime_cython_def Let_def)
  have 3: "uuidv7_to_datetime_cython f uuid = Inl UnicodeEncodeError"
    if "uuid \<noteq> []" "length ?clean = 32" "\<not> is_ascii_str ?clean"
    using that by (simp add: uuidv7_to_datetime_cython_def Let_def encode_ascii_def is_ascii_str_def)
  have 4: "hex_value (take 12 ?clean) < 2 ^ 48
        \<and> uuidv7_to_datetime_cython f uuid =
            (case f (of_nat (hex_value (take 12 ?clean))) of Inl e \<Rightarrow> Inl e | Inr dt \<Rightarrow> Inr (Some dt))"
    if "uuid \<noteq> []" "length ?clean = 32" "is_ascii_str ?clean"
  proof -
    have l: "12 \<le> length ?clean" using that(2) by simp
    have "encode_ascii ?clean = Inr (map of_nat ?clean)"
      using that(3) by (simp add: encode_ascii_def is_ascii_str_def)
    then show ?thesis
      using that(1,2) parse_hex_u48_of_nat[OF that(3) l] hex_value_12_bound[OF l]
      by (simp add: uuidv7_to_datetime_cython_def Let_def)
  qed
  from 1 2 3 4 show ?thesis by blast
qed

text \<open>
  Claim C7, amended, at the empty text, a short text, a text with a non-ASCII
  character and a UUIDv7 text, with the millisecond count itself as the timestamp.
\<close>

theorem uuidv7_to_datetime_cython_cases_witness:
  "uuidv7_to_datetime_cython (Inr :: 64 word \<Rightarrow> py_error + 64 word) [] = Inr None
   \<and> uuidv7_to_datetime_cython (Inr :: 64 word \<Rightarrow> py_error + 64 word) (lit ''0123-4567'')
       = Inl (ValueError ''Invalid UUID string length'')
   \<and> uuidv7_to_datetime_cython (Inr :: 64 word \<Rightarrow> py_error + 64 word)
         (lit ''0123456789ab-7fbf-0102-03040506070'' @ [233]) = Inl UnicodeEncodeError
   \<and> uuidv7_to_datetime_cython (Inr :: 64 word \<Rightarrow> py_error + 64 word)
         (lit ''01234567-89ab-7fbf-0102-030405060708'') = Inr (Some 0x0123456789ab)"
proof -
  let ?f = "Inr :: 64 word \<Rightarrow> py_error + 64 word"
  let ?a = "lit ''0123-4567''"
  let ?b = "lit ''0123456789ab-7fbf-0102-03040506070'' @ [233]"
  let ?c = "lit ''01234567-89ab-7fbf-0102-030405060708''"
  have a: "?a \<noteq> [] \<and> length (filter (\<lambda>c. c \<noteq> 45) ?a) \<noteq> 32" by (simp add: lit_def)
  have b: "?b \<noteq> [] \<and> length (filter (\<lambda>c. c \<noteq> 45) ?b) = 32 \<and> \<not> is_ascii_str (filter (\<lambda>c. c \<noteq> 45) ?b)"
    by (simp add: lit_def is_ascii_str_def)
  have c: "?c \<noteq> [] \<and> length (filter (\<lambda>c. c \<noteq> 45) ?c) = 32 \<and> is_ascii_str (filter (\<lambda>c. c \<noteq> 45) ?c)"
    by (simp add: lit_def is_ascii_str_def)
  have v: "hex_value (take 12 (filter (\<lambda>c. c \<noteq> 45) ?c)) = 0x0123456789ab"
    by (simp add: lit_def hex_value_def hex_val_def)
  have 1: "uuidv7_to_datetime_cython ?f [] = Inr None"
    using uuidv7_to_datetime_cython_cases[of ?f "[]"] by blast
  have 2: "uuidv7_to_datetime_cython ?f ?a = Inl (ValueError ''Invalid UUID string length'')"
    using uuidv7_to_datetime_cython_cases[of ?f ?a] a by blast
  have 3: "uuidv7_to_datetime_cython ?f ?b = Inl UnicodeEncodeError"
    using uuidv7_to_datetime_cython_cases[of ?f ?b] b by blast
  have "uuidv7_to_datetime_cython ?f ?c =
          (case ?f (of_nat (hex_value (take 12 (filter (\<lambda>c. c \<noteq> 45) ?c)))) of
             Inl e \<Rightarrow> Inl e | Inr dt \<Rightarrow> Inr (Some dt))"
    using uuidv7_to_datetime_cython_cases[of ?f ?c] c by blast
  then have 4: "uuidv7_to_datetime_cython ?f ?c = Inr (Some 0x0123456789ab)"
    unfolding v by simp
  from 1 2 3 4 show ?thesis by blast
qed

text \<open>
  Claim C6. The version digit (hex digit 12, character 14 of the dashed text) is
  always \<open>7\<close>, and the two top bits of byte 7 are always binary 10
  (\<open>uuidv7_cython_layout\<close>). But the variant of the identifier layout is in bits
  64..65, the top of byte 8 (hex digit 16, character 19 of the dashed text), and
  \<open>uuidv7_cython\<close> writes its variant bits into byte 7 and copies the random byte
  \<open>r[2]\<close> into byte 8 unmasked. With the clock at 0 and ten zero random bytes the
  identifier is \<open>00000000-0000-7080-0000-000000000000\<close>: its variant digit is \<open>0\<close>,
  binary 00 in the two top bits.
\<close>

theorem uuidv7_cython_zero_random:
  "uuidv7_cython 0 [0, 0, 0, 0, 0, 0, 0, 0, 0, 0] = Inr (lit ''00000000-0000-7080-0000-000000000000'')"
  by (simp add: uuidv7_cython_def uuidv7_bytes_def write_u48_be_def uuid_str_def py_hex32_def
        py_hex_digit_def lit_def)

text \<open>
  Claim C8. For the empty list of parts \<open>to_stable_uuid_cython\<close> returns the empty
  text. For a non-empty list whose parts, joined with \<open>|\<close>, have the UTF-8 bytes
  \<open>bs\<close>, it returns the uppercase dashed hex rendering of the whole 16-byte digest of
  \<open>bs\<close>. Equal lists give equal results, and the lists \<open>[a, b]\<close> and \<open>[b, a]\<close> give
  different results whenever the digest tells \<open>a|b\<close> from \<open>b|a\<close>: the rendering loses
  nothing of the digest.
\<close>

theorem to_stable_uuid_cython_spec:
  "to_stable_uuid_cython md5 [] = Inr []
   \<and> (parts \<noteq> [] \<and> encode_utf8 (join [124] parts) = Inr bs \<and> length (md5 bs) = 16 \<longrightarrow>
        to_stable_uuid_cython md5 parts = Inr (upper_dashed_hex (md5 bs)))
   \<and> (parts = parts' \<longrightarrow> to_stable_uuid_cython md5 parts = to_stable_uuid_cython md5 parts')
   \<and> (length (md5 (blit ''a|b'')) = 16 \<and> length (md5 (blit ''b|a'')) = 16
        \<and> md5 (blit ''a|b'') \<noteq> md5 (blit ''b|a'') \<longrightarrow>
        to_stable_uuid_cython md5 [lit ''a'', lit ''b''] \<noteq> to_stable_uuid_cython md5 [lit ''b'', lit ''a''])"
proof -
  have 1: "to_stable_uuid_cython md5 [] = Inr []"
    by (simp add: to_stable_uuid_cython_def)
  have 2: "to_stable_uuid_cython md5 parts = Inr (upper_dashed_hex (md5 bs))"
    if "parts \<noteq> []" "encode_utf8 (join [124] parts) = Inr bs" "length (md5 bs) = 16"
    using that by (rule to_stable_uuid_cython_nonempty)
  have 3: "to_stable_uuid_cython md5 [lit ''a'', lit ''b''] \<noteq> to_stable_uuid_cython md5 [lit ''b'', lit ''a'']"
    if l: "length (md5 (blit ''a|b'')) = 16" "length (md5 (blit ''b|a'')) = 16"
      and ne: "md5 (blit ''a|b'') \<noteq> md5 (blit ''b|a'')"
  proof
    assume eq: "to_stable_uuid_cython md5 [lit ''a'', lit ''b''] = to_stable_uuid_cython md5 [lit ''b'', lit ''a'']"
    have ab: "to_stable_uuid_cython md5 [lit ''a'', lit ''b''] = Inr (upper_dashed_hex (md5 (blit ''a|b'')))"
      using to_stable_uuid_cython_nonempty[of "[lit ''a'', lit ''b'']" "blit ''a|b''" md5]
        encode_utf8_a_b(1) l(1) by blast
    have ba: "to_stable_uuid_cython md5 [lit ''b'', lit ''a''] = Inr (upper_dashed_hex (md5 (blit ''b|a'')))"
      using to_stable_uuid_cython_nonempty[of "[lit ''b'', lit ''a'']" "blit ''b|a''" md5]
        encode_utf8_a_b(2) l(2) by blast
    from eq have "upper_dashed_hex (md5 (blit ''a|b'')) = upper_dashed_hex (md5 (blit ''b|a''))"
      unfolding ab ba by (rule Inr_inject)
    then have "md5 (blit ''a|b'') = md5 (blit ''b|a'')"
      by (rule upper_dashed_hex_inj[OF l])
    with ne show False by (rule notE)
  qed
  from 1 2 3 show ?thesis by blast
qed

text \<open>
  Claim C8 with a digest that pads or cuts its input to 16 bytes, at the lists
  \<open>[]\<close>, \<open>[a, b]\<close> and \<open>[b, a]\<close>.
\<close>

theorem to_stable_uuid_cython_spec_witness:
  "to_stable_uuid_cython (\<lambda>bs. take 16 (bs @ [0,0,0,0,0,0,0,0,0,0,0,0,0,0,0,0])) [] = Inr []
   \<and> to_stable_uuid_cython (\<lambda>bs. take 16 (bs @ [0,0,0,0,0,0,0,0,0,0,0,0,0,0,0,0])) [lit ''a'', lit ''b'']
       = Inr (lit ''617C6200-0000-0000-0000-000000000000'')
   \<and> to_stable_uuid_cython (\<lambda>bs. take 16 (bs @ [0,0,0,0,0,0,0,0,0,0,0,0,0,0,0,0])) [lit ''a'', lit ''b'']
       \<noteq> to_stable_uuid_cython (\<lambda>bs. take 16 (bs @ [0,0,0,0,0,0,0,0,0,0,0,0,0,0,0,0])) [lit ''b'', lit ''a'']"
proof -
  let ?md5 = "\<lambda>bs :: byte list. take 16 (bs @ [0,0,0,0,0,0,0,0,0,0,0,0,0,0,0,0])"
  let ?ab = "[lit ''a'', lit ''b'']"
  note spec = to_stable_uuid_cython_spec[of ?md5 ?ab "blit ''a|b''" ?ab]
  have h: "?ab \<noteq> [] \<and> encode_utf8 (join [124] ?ab) = Inr (blit ''a|b'') \<and> length (?md5 (blit ''a|b'')) = 16"
    by (simp add: lit_def blit_def utf8_encode_cp_def)
  have d: "length (?md5 (blit ''a|b'')) = 16 \<and> length (?md5 (blit ''b|a'')) = 16
            \<and> ?md5 (blit ''a|b'') \<noteq> ?md5 (blit ''b|a'')"
    by (simp add: blit_def)
  have v: "upper_dashed_hex (?md5 (blit ''a|b'')) = lit ''617C6200-0000-0000-0000-000000000000''"
    by (simp add: blit_def lit_def upper_dashed_hex_def upper_hex_def upper_hex_digit_def dashed_def)
  have 1: "to_stable_uuid_cython ?md5 [] = Inr []" using spec by blast
  have "to_stable_uuid_cython ?md5 ?ab = Inr (upper_dashed_hex (?md5 (blit ''a|b'')))"
    using spec h by blast
  then have 2: "to_stable_uuid_cython ?md5 ?ab = Inr (lit ''617C6200-0000-0000-0000-000000000000'')"
    unfolding v .
  have 3: "to_stable_uuid_cython ?md5 ?ab \<noteq> to_stable_uuid_cython ?md5 [lit ''b'', lit ''a'']"
    using spec d by blast
  from 1 2 3 show ?thesis by blast
qed

text \<open>
  Claim C4, as stated, fails: the merge loop writes into the dictionary the caller
  passed (the source marks the loop \<open>mutates input dict\<close>). With the keys \<open>_a\<close> and
  \<open>a\<close>, values 1 and 0, and the identity as \<open>method\<close>, the caller's dictionary holds
  1 under \<open>a\<close> after the call.
\<close>

theorem change_keys_case_mutates_counterexample:
  "fst (change_keys_case \<lparr>truthy = (\<lambda>i::int. i \<noteq> 0), iterable = (\<lambda>i. False), str_of = (\<lambda>k. [])\<rparr>
         (\<lambda>key. key) True
         (VDict [(VStr (lit ''_a''), VObj 1), (VStr (lit ''a''), VObj 0)]))
     = VDict [(VStr (lit ''_a''), VObj 1), (VStr (lit ''a''), VObj 1)]"
  by (simp add: Let_def lit_def startswith_underscore_def lstrip_underscore_def py_or_def)

text \<open>
  Claim C4, amended. Let the keys of every mapping in the argument differ. When the
  call returns, the caller's value is \<open>after_call\<close>: in every mapping the call visits,
  each key holds the first truthy of its own value and the values of the keys that
  begin with \<open>_\<close> and strip to it (the last of them when none is truthy), and nothing
  else has changed. The caller's value is as it was before the call exactly when
  \<open>merge_keeps\<close> holds: in every mapping the call visits, that first truthy value is
  the key's own value. In particular the argument is unchanged when it is
  merge-free: no mapping the call visits has a key that begins with \<open>_\<close> and whose
  stripped key is in the mapping too. Whatever the mapping, the caller's mapping
  has the same keys in the same order after the call. With \<open>deep\<close> false the caller's
  mapping after the call is the merged mapping.
\<close>

theorem change_keys_case_argument:
  "(distinct_keys v \<longrightarrow>
      fst (change_keys_case E method deep v) = after_call E deep v
      \<and> (fst (change_keys_case E method deep v) = v \<longleftrightarrow> merge_keeps E deep v))
   \<and> (merge_free deep v \<longrightarrow> fst (change_keys_case E method deep v) = v)
   \<and> (\<exists>d'. fst (change_keys_case E method deep (VDict d)) = VDict d' \<and> map fst d' = map fst d)
   \<and> (distinct (map fst d) \<longrightarrow>
        fst (change_keys_case E method False (VDict d)) = VDict (merged E d))"
proof -
  have 1: "fst (change_keys_case E method deep v) = after_call E deep v
           \<and> (fst (change_keys_case E method deep v) = v \<longleftrightarrow> merge_keeps E deep v)"
    if "distinct_keys v"
    using change_keys_case_after_call[OF that, of E "method" deep] after_call_fixed[of E deep v]
    by simp
  from 1 change_keys_case_input_unchanged[of deep v E "method"]
    change_keys_case_input_keys[of E "method" deep d]
    change_keys_case_shallow_merged[of d E "method"]
  show ?thesis by blast
qed

text \<open>
  Claim C4, amended, at three mappings, with the identity as \<open>method\<close> and \<open>deep\<close> set.
  The mapping with the keys \<open>_a\<close>, \<open>a\<close>, \<open>b\<close> and the values 1, 2, 5 asks for a merge and
  is unchanged, because the value of \<open>a\<close> is truthy. In the mapping with \<open>_a\<close>, \<open>a\<close> and
  the values 1, 0, and with a list under \<open>n\<close> that holds a mapping with \<open>__b\<close>, \<open>b\<close> and
  the values \<open>"x"\<close>, \<open>""\<close>, the values of \<open>a\<close> and of \<open>b\<close> are replaced. The mapping with a
  prefixed key \<open>_a\<close> and no key \<open>a\<close> is merge-free and unchanged.
\<close>

theorem change_keys_case_argument_witness:
  "fst (change_keys_case \<lparr>truthy = (\<lambda>i::int. i \<noteq> 0), iterable = (\<lambda>i. False), str_of = (\<lambda>k. [])\<rparr>
         (\<lambda>key. key) True
         (VDict [(VStr (lit ''_a''), VObj 1), (VStr (lit ''a''), VObj 2), (VStr (lit ''b''), VObj 5)]))
     = VDict [(VStr (lit ''_a''), VObj 1), (VStr (lit ''a''), VObj 2), (VStr (lit ''b''), VObj 5)]
   \<and> fst (change_keys_case \<lparr>truthy = (\<lambda>i::int. i \<noteq> 0), iterable = (\<lambda>i. False), str_of = (\<lambda>k. [])\<rparr>
         (\<lambda>key. key) True
         (VDict [(VStr (lit ''_a''), VObj 1), (VStr (lit ''a''), VObj 0),
                 (VStr (lit ''n''), VList [VDict [(VStr (lit ''__b''), VStr (lit ''x'')),
                                                  (VStr (lit ''b''), VStr [])]])]))
     = VDict [(VStr (lit ''_a''), VObj 1), (VStr (lit ''a''), VObj 1),
              (VStr (lit ''n''), VList [VDict [(VStr (lit ''__b''), VStr (lit ''x'')),
                                               (VStr (lit ''b''), VStr (lit ''x''))]])]
   \<and> fst (change_keys_case \<lparr>truthy = (\<lambda>i::int. i \<noteq> 0), iterable = (\<lambda>i. False), str_of = (\<lambda>k. [])\<rparr>
         (\<lambda>key. key) True
         (VDict [(VStr (lit ''_a''), VObj 1), (VStr (lit ''b''), VList [VDict [(VStr (lit ''c''), VObj 0)]])]))
     = VDict [(VStr (lit ''_a''), VObj 1), (VStr (lit ''b''), VList [VDict [(VStr (lit ''c''), VObj 0)]])]"
proof -
  let ?E = "\<lparr>truthy = (\<lambda>i::int. i \<noteq> 0), iterable = (\<lambda>i. False), str_of = (\<lambda>k. [])\<rparr>"
  let ?u = "VDict [(VStr (lit ''_a''), VObj (1::int)), (VStr (lit ''a''), VObj 2), (VStr (lit ''b''), VObj 5)]"
  let ?v = "VDict [(VStr (lit ''_a''), VObj (1::int)), (VStr (lit ''a''), VObj 0),
                   (VStr (lit ''n''), VList [VDict [(VStr (lit ''__b''), VStr (lit ''x'')),
                                                    (VStr (lit ''b''), VStr [])]])]"
  let ?w = "VDict [(VStr (lit ''_a''), VObj (1::int)), (VStr (lit ''b''), VList [VDict [(VStr (lit ''c''), VObj 0)]])]"
  have u1: "distinct_keys ?u" by (simp add: lit_def)
  have u2: "merge_keeps ?E True ?u"
    by (simp add: prefixed_values_def prefixed_for_def lit_def startswith_underscore_def
          lstrip_underscore_def)
  have v1: "distinct_keys ?v" by (simp add: lit_def)
  have v2: "after_call ?E True ?v
              = VDict [(VStr (lit ''_a''), VObj 1), (VStr (lit ''a''), VObj 1),
                  (VStr (lit ''n''), VList [VDict [(VStr (lit ''__b''), VStr (lit ''x'')),
                                                   (VStr (lit ''b''), VStr (lit ''x''))]])]"
    by (simp add: merged_def prefixed_values_def prefixed_for_def lit_def startswith_underscore_def
          lstrip_underscore_def)
  have w1: "merge_free True ?w"
    by (simp add: asks_merge_def lit_def startswith_underscore_def lstrip_underscore_def)
  note tu = change_keys_case_argument[of ?u ?E "\<lambda>key. key" True "[]"]
  note tv = change_keys_case_argument[of ?v ?E "\<lambda>key. key" True "[]"]
  note tw = change_keys_case_argument[of ?w ?E "\<lambda>key. key" True "[]"]
  have a: "fst (change_keys_case ?E (\<lambda>key. key) True ?u) = ?u"
    using iffD2[OF conjunct2[OF mp[OF conjunct1[OF tu] u1]] u2] .
  have b: "fst (change_keys_case ?E (\<lambda>key. key) True ?v) = after_call ?E True ?v"
    using conjunct1[OF mp[OF conjunct1[OF tv] v1]] .
  have c: "fst (change_keys_case ?E (\<lambda>key. key) True ?w) = ?w"
    using mp[OF conjunct1[OF conjunct2[OF tw]] w1] .
  from a b[unfolded v2] c show ?thesis by (intro conjI)
qed

text \<open>
  Claim C5, as stated, fails for \<open>recursive_sort_keys_cython\<close>: the value of a key
  that is a tuple is rebuilt as \<open>new_list\<close>, a list. The mapping with the one key \<open>a\<close>
  and the tuple \<open>(1,)\<close> comes back with the list \<open>[1]\<close>.
\<close>

theorem recursive_sort_keys_tuple_counterexample:
  "recursive_sort_keys_cython (\<lambda>a b. None) [(VStr (lit ''a''), VTuple [VObj (1::int)])]
     = Inr [(VStr (lit ''a''), VList [VObj 1])]"
  by (simp add: recursive_sort_keys_cython.simps build_out_def)

text \<open>
  Claim C5, amended. For every value that is no string or byte string, the result of
  \<open>change_keys_case\<close> is a container of the same kind, whatever \<open>method\<close> and \<open>deep\<close> are;
  and when the keys of every mapping differ the result is the input rebuilt, level
  by level: a list for a list and a tuple for a tuple, item by item; a set for a
  set, with the rebuilt elements of the input and no others; a mapping for a
  mapping, with the rewritten keys of the input and no others, each holding the
  rebuilt value of the last key rewritten to it. When \<open>recursive_sort_keys_cython\<close>
  returns for a mapping whose keys differ at every level, the result has the keys
  of the input and no others, and under each key a mapping where the input has a
  mapping (related to it in the same way), a list where the input has a list or a
  tuple (the items in order, the mappings among them sorted, every other item
  itself), and the input's value itself otherwise.
\<close>

theorem container_kinds:
  "(\<not> string_like v \<longrightarrow> kind_of (snd (change_keys_case E method deep v)) = kind_of v)
   \<and> (distinct_keys v \<and> \<not> string_like v \<longrightarrow>
        rebuilt E method deep v (snd (change_keys_case E method deep v)))
   \<and> (distinct_keys (VDict d) \<and> recursive_sort_keys_cython lt d = Inr r \<longrightarrow>
        sort_rebuilt False (VDict d) (VDict r)
        \<and> list_all (\<lambda>(k, v). case map_of r k of
                                 None \<Rightarrow> False
                               | Some w \<Rightarrow> kind_of w = kind_after_sort (kind_of v)) d)"
proof -
  have 1: "kind_of (snd (change_keys_case E method deep v)) = kind_of v" if "\<not> string_like v"
    using that by (rule change_keys_case_kind)
  have 2: "rebuilt E method deep v (snd (change_keys_case E method deep v))"
    if "distinct_keys v \<and> \<not> string_like v"
    using that change_keys_case_rebuilt[of v E "method" deep] by blast
  have 3: "sort_rebuilt False (VDict d) (VDict r)
           \<and> list_all (\<lambda>(k, v). case map_of r k of
                                    None \<Rightarrow> False
                                  | Some w \<Rightarrow> kind_of w = kind_after_sort (kind_of v)) d"
    if h: "distinct_keys (VDict d) \<and> recursive_sort_keys_cython lt d = Inr r"
  proof -
    from h have s: "sort_rebuilt False (VDict d) (VDict r)"
      using recursive_sort_keys_cython_rebuilt[of d lt r False] by blast
    then have all: "\<forall>e \<in> set d. (\<lambda>(k, v). case map_of r k of
                                 None \<Rightarrow> False
                               | Some w \<Rightarrow> sort_rebuilt False v w) e"
      by (simp add: list_all_iff)
    have "(\<lambda>(k, v). case map_of r k of
                       None \<Rightarrow> False
                     | Some w \<Rightarrow> kind_of w = kind_after_sort (kind_of v)) e" if e: "e \<in> set d" for e
    proof -
      obtain k v where p: "e = (k, v)" by (cases e)
      from bspec[OF all e] show ?thesis unfolding p prod.case
        by (cases "map_of r k") (simp_all add: sort_rebuilt_kind)
    qed
    then have "list_all (\<lambda>(k, v). case map_of r k of
                                 None \<Rightarrow> False
                               | Some w \<Rightarrow> kind_of w = kind_after_sort (kind_of v)) d"
      unfolding list_all_iff by blast
    with s show ?thesis by blast
  qed
  from 1 2 3 show ?thesis by blast
qed

text \<open>
  Claim C5, amended, at a list that holds a mapping with a merge and a tuple of a
  set, and at a mapping with a list and a tuple as values, the tuple holding a
  mapping.
\<close>

theorem container_kinds_witness:
  "rebuilt \<lparr>truthy = (\<lambda>i::int. i \<noteq> 0), iterable = (\<lambda>i. False), str_of = (\<lambda>k. [])\<rparr>
     (\<lambda>key. key) True
     (VList [VDict [(VStr (lit ''_a''), VObj 1), (VStr (lit ''a''), VObj 0)],
             VTuple [VSet [VObj 2]]])
     (VList [VDict [(VStr (lit ''_a''), VObj 1), (VStr (lit ''a''), VObj 1)],
             VTuple [VSet [VObj 2]]])
   \<and> sort_rebuilt False
        (VDict [(VStr (lit ''b'') :: int pyval, VTuple [VObj 1, VDict [(VStr (lit ''d''), VObj 3), (VStr (lit ''c''), VObj 4)]]),
                (VStr (lit ''a''), VList [VObj (2::int)])])
        (VDict [(VStr (lit ''a''), VList [VObj 2]),
                (VStr (lit ''b''), VList [VObj 1, VDict [(VStr (lit ''c''), VObj 4), (VStr (lit ''d''), VObj 3)]])])"
proof -
  let ?E = "\<lparr>truthy = (\<lambda>i::int. i \<noteq> 0), iterable = (\<lambda>i. False), str_of = (\<lambda>k. [])\<rparr>"
  let ?v = "VList [VDict [(VStr (lit ''_a''), VObj (1::int)), (VStr (lit ''a''), VObj 0)],
                   VTuple [VSet [VObj 2]]]"
  let ?d = "[(VStr (lit ''b'') :: int pyval, VTuple [VObj 1, VDict [(VStr (lit ''d''), VObj 3), (VStr (lit ''c''), VObj 4)]]),
             (VStr (lit ''a''), VList [VObj (2::int)])]"
  let ?r = "[(VStr (lit ''a'') :: int pyval, VList [VObj 2]),
             (VStr (lit ''b''), VList [VObj (1::int), VDict [(VStr (lit ''c''), VObj 4), (VStr (lit ''d''), VObj 3)]])]"
  have a: "distinct_keys ?v \<and> \<not> string_like ?v" by (simp add: string_like_def lit_def)
  have o: "snd (change_keys_case ?E (\<lambda>key. key) True ?v)
             = VList [VDict [(VStr (lit ''_a''), VObj 1), (VStr (lit ''a''), VObj 1)],
                      VTuple [VSet [VObj 2]]]"
    by (simp add: Let_def lit_def startswith_underscore_def lstrip_underscore_def py_or_def
          method_key_def build_out_def)
  have b: "distinct_keys (VDict ?d) \<and> recursive_sort_keys_cython (\<lambda>a b. None) ?d = Inr ?r"
    by (simp add: recursive_sort_keys_cython.simps build_out_def py_lt_def lit_def)
  note t = container_kinds[of ?v ?E "\<lambda>key. key" True ?d "\<lambda>a b. None" ?r]
  have c: "rebuilt ?E (\<lambda>key. key) True ?v (snd (change_keys_case ?E (\<lambda>key. key) True ?v))"
    by (rule mp[OF conjunct1[OF conjunct2[OF t]] a])
  have d: "sort_rebuilt False (VDict ?d) (VDict ?r)"
    by (rule conjunct1[OF mp[OF conjunct2[OF conjunct2[OF t]] b]])
  from c[unfolded o] d show ?thesis by (rule conjI)
qed

text \<open>
  Claim C10, as stated, fails: two keys of the input can be rewritten to the same
  output key, and then the later item of the mapping replaces the earlier one. With
  the keys \<open>_a\<close> and \<open>a\<close>, in this order, values 1 and 2, and a \<open>method\<close> that strips
  leading underscores, the output has the single entry \<open>a\<close> with value 2, not the
  value 1 of the prefixed key.
\<close>

theorem prefixed_key_entry_counterexample:
  "snd (change_keys_case \<lparr>truthy = (\<lambda>i::int. i \<noteq> 0), iterable = (\<lambda>i. False), str_of = (\<lambda>k. [])\<rparr>
         (\<lambda>key. case key of VStr s \<Rightarrow> VStr (lstrip_underscore s) | _ \<Rightarrow> key) True
         (VDict [(VStr (lit ''_a''), VObj 1), (VStr (lit ''a''), VObj 2)]))
     = VDict [(VStr (lit ''a''), VObj 2)]"
  by (simp add: Let_def lit_def startswith_underscore_def lstrip_underscore_def py_or_def
        method_key_def build_out_def)

text \<open>
  Claim C10, amended. Let the input mapping, its keys distinct, hold a string key
  that begins with \<open>_\<close>, with value \<open>v\<close>, and the key stripped of its leading underscores.
  Then the output mapping has an entry at \<open>method\<close> of the prefixed key and an entry at
  \<open>method\<close> of the stripped key. If no key that follows the prefixed key in the
  mapping is rewritten to the output key of the prefixed key, the entry there
  carries \<open>v\<close>, or the transformed \<open>v\<close> when \<open>deep\<close> is set and \<open>v\<close> is a container. In
  general the entry there carries the value of the last key rewritten to that
  output key, as that key has it after the merge.
\<close>

theorem prefixed_key_entry:
  assumes dist: "distinct (map fst d)"
    and v: "map_of d (VStr s) = Some v"
    and pre: "startswith_underscore s"
    and cand: "map_of d (VStr (lstrip_underscore s)) \<noteq> None"
  shows "\<exists>out. snd (change_keys_case E method deep (VDict d)) = VDict out
           \<and> map_of out (method (VStr s)) \<noteq> None
           \<and> map_of out (method (VStr (lstrip_underscore s))) \<noteq> None
           \<and> (\<forall>xs ys. d = xs @ (VStr s, v) # ys
                  \<and> (\<forall>k \<in> set (map fst ys). method_key E method k \<noteq> method (VStr s)) \<longrightarrow>
                map_of out (method (VStr s))
                  = Some (if deep \<and> is_iterable_except_str_like_cython E v
                          then snd (change_keys_case E method deep v) else v))
           \<and> (\<forall>xs k w ys. merged E d = xs @ (k, w) # ys
                  \<and> method_key E method k = method (VStr s)
                  \<and> (\<forall>k' \<in> set (map fst ys). method_key E method k' \<noteq> method (VStr s)) \<longrightarrow>
                map_of out (method (VStr s))
                  = Some (if deep \<and> is_iterable_except_str_like_cython E w
                          then snd (change_keys_case E method deep w) else w))"
proof -
  define res where "res = (\<lambda>val. if deep \<and> is_iterable_except_str_like_cython E val
                       then snd (change_keys_case E method deep val) else val)"
  define out where "out = build_out (map (\<lambda>(key, val). (method_key E method key, res val)) (merged E d))"
  have out: "snd (change_keys_case E method deep (VDict d)) = VDict out"
    using change_keys_case_dict_out[of E "method" deep d]
    unfolding merge_loop_merged[OF dist] out_def res_def .
  have mk: "method_key E method (VStr t) = method (VStr t)" for t
    by (simp add: method_key_def)
  have present: "map_of out (method_key E method key) \<noteq> None" if "key \<in> set (map fst d)" for key
  proof -
    from that have "key \<in> set (map fst (merged E d))" by (simp only: merged_keys)
    then obtain val where "(key, val) \<in> set (merged E d)" by auto
    then have "(method_key E method key, res val)
                 \<in> set (rev (map (\<lambda>(key, val). (method_key E method key, res val)) (merged E d)))"
      by force
    then have "method_key E method key
                 \<in> fst ` set (rev (map (\<lambda>(key, val). (method_key E method key, res val)) (merged E d)))"
      by (rule rev_image_eqI) simp
    then show ?thesis unfolding out_def map_of_build_out by (simp only: map_of_eq_None_iff not_not)
  qed
  have k1: "VStr s \<in> set (map fst d)" using map_of_SomeD[OF v] by (simp add: rev_image_eqI)
  have k2: "VStr (lstrip_underscore s) \<in> set (map fst d)"
    using cand by (simp add: map_of_eq_None_iff)
  have a: "map_of out (method (VStr s)) \<noteq> None" using present[OF k1] unfolding mk .
  have b: "map_of out (method (VStr (lstrip_underscore s))) \<noteq> None" using present[OF k2] unfolding mk .
  have last_write: "map_of out (method (VStr s)) = Some (res w)"
    if "merged E d = xs @ (k, w) # ys" "method_key E method k = method (VStr s)"
       "\<forall>k' \<in> set (map fst ys). method_key E method k' \<noteq> method (VStr s)" for xs k w ys
  proof -
    from that(3) have "\<forall>k' \<in> set (map fst ys). method_key E method k' \<noteq> method_key E method k"
      unfolding that(2) .
    from change_keys_case_last_write[OF dist that(1) this, of deep]
    show ?thesis unfolding out_def res_def that(2) by blast
  qed
  have own: "map_of out (method (VStr s)) = Some (res v)"
    if "d = xs @ (VStr s, v) # ys"
       "\<forall>k \<in> set (map fst ys). method_key E method k \<noteq> method (VStr s)" for xs ys
  proof -
    from merged_split[OF that(1) pre, of E] obtain xs' ys'
      where m: "merged E d = xs' @ (VStr s, v) # ys'" "map fst ys' = map fst ys" by blast
    from that(2) have "\<forall>k \<in> set (map fst ys'). method_key E method k \<noteq> method (VStr s)"
      unfolding m(2) .
    from last_write[OF m(1) mk this] show ?thesis .
  qed
  from out a b own last_write show ?thesis unfolding res_def by blast
qed

text \<open>
  Claim C10, amended, at the mapping with the keys \<open>a\<close> and \<open>_a\<close>, in this order, values
  2 and 1, and a \<open>method\<close> that strips leading underscores: both keys are rewritten
  to \<open>a\<close>, the prefixed key is the later one, and the entry \<open>a\<close> of the output carries
  its value 1.
\<close>

theorem prefixed_key_entry_witness:
  "\<exists>out. snd (change_keys_case \<lparr>truthy = (\<lambda>i::int. i \<noteq> 0), iterable = (\<lambda>i. False), str_of = (\<lambda>k. [])\<rparr>
                (\<lambda>key. case key of VStr s \<Rightarrow> VStr (lstrip_underscore s) | _ \<Rightarrow> key) True
                (VDict [(VStr (lit ''a''), VObj 2), (VStr (lit ''_a''), VObj 1)])) = VDict out
         \<and> map_of out (VStr (lit ''a'')) = Some (VObj 1)"
proof -
  let ?E = "\<lparr>truthy = (\<lambda>i::int. i \<noteq> 0), iterable = (\<lambda>i. False), str_of = (\<lambda>k. [])\<rparr>"
  let ?f = "\<lambda>key :: int pyval. case key of VStr s \<Rightarrow> VStr (lstrip_underscore s) | _ \<Rightarrow> key"
  let ?d = "[(VStr (lit ''a''), VObj (2::int)), (VStr (lit ''_a''), VObj 1)]"
  have h1: "distinct (map fst ?d)" by (simp add: lit_def)
  have h2: "map_of ?d (VStr (lit ''_a'')) = Some (VObj 1)" by (simp add: lit_def)
  have h3: "startswith_underscore (lit ''_a'')" by (simp add: startswith_underscore_def lit_def)
  have l: "lstrip_underscore (lit ''_a'') = lit ''a''" by (simp add: lstrip_underscore_def lit_def)
  have h4: "map_of ?d (VStr (lstrip_underscore (lit ''_a''))) \<noteq> None" unfolding l by simp
  have fa: "?f (VStr (lit ''_a'')) = VStr (lit ''a'')" by (simp add: l)
  from prefixed_key_entry[OF h1 h2 h3 h4, of ?E ?f True]
  obtain out where o: "snd (change_keys_case ?E ?f True (VDict ?d)) = VDict out"
      "\<forall>xs ys. ?d = xs @ (VStr (lit ''_a''), VObj 1) # ys
          \<and> (\<forall>k \<in> set (map fst ys). method_key ?E ?f k \<noteq> ?f (VStr (lit ''_a''))) \<longrightarrow>
         map_of out (?f (VStr (lit ''_a'')))
           = Some (if True \<and> is_iterable_except_str_like_cython ?E (VObj 1)
                   then snd (change_keys_case ?E ?f True (VObj 1)) else VObj 1)"
    by blast
  have "?d = [(VStr (lit ''a''), VObj 2)] @ (VStr (lit ''_a''), VObj 1) # []
          \<and> (\<forall>k \<in> set (map fst ([] :: (int pyval \<times> int pyval) list)).
                method_key ?E ?f k \<noteq> ?f (VStr (lit ''_a'')))"
    by simp
  from mp[OF spec[OF spec[OF o(2)]] this]
  have "map_of out (VStr (lit ''a'')) = Some (VObj 1)" unfolding fa by simp
  with o(1) show ?thesis by blast
qed

end
